theory Spec2Isabelle
  imports Main "HOL-Library.AList" "HOL-Library.Char_ord" "HOL-Library.List_Lexorder"
begin

section \<open>The style engine processor (class-wp-style-engine-processor.php)\<close>

text \<open>
  The processor holds two PHP arrays: \<open>$stores\<close>, keyed by store name, and
  \<open>$css_rules\<close>, keyed by selector. A PHP array is an ordered map: assigning to a key
  that is present replaces the value where it stands, assigning to a new key appends the
  entry at the end, and \<open>unset\<close> removes the entry. These are \<open>AList.update\<close> and
  \<open>AList.delete\<close> on association lists.

  The values of \<open>$css_rules\<close> are rule objects. PHP holds objects by handle:
  \<open>add_rules\<close> stores the very object it was given (the one a store owns) and later
  merges declarations into it in place. The model therefore keeps the rule objects in a
  heap (a list indexed by address) and the arrays hold addresses.
\<close>

subsection \<open>Declarations, rules and stores\<close>

text \<open>
  Modelled from the spec: the classes \<open>WP_Style_Engine_CSS_Declarations\<close>,
  \<open>WP_Style_Engine_CSS_Rule\<close> and \<open>WP_Style_Engine_CSS_Rules_Store\<close> are not among
  the sources. A declaration set is an ordered map from property to value (a PHP array);
  a rule pairs a selector with the declaration set it owns; a store has a name and holds
  rules in the order in which their selectors were first seen.
\<close>

type_synonym declarations = "(string \<times> string) list"

type_synonym ref = nat

record css_rule =
  selector :: string
  declarations :: declarations

record rules_store =
  name :: string
  rules :: "ref list"

text \<open>
  The processor of the source, with the heap of rule objects that its arrays refer to.
  A store is kept as it stands when \<open>get_css\<close> reads it: the processor never changes
  a store, only the rule objects it shares with it.
\<close>

record processor =
  heap :: "css_rule list"
  stores :: "(string \<times> rules_store) list"
  css_rules :: "(string \<times> ref) list"

text \<open>
  Modelled from the spec: merging another declaration set into a set overwrites the
  value of every property of the other set (added declarations win); new properties are
  appended.
\<close>

definition merge_declarations :: "declarations \<Rightarrow> declarations \<Rightarrow> declarations" where
  "merge_declarations this other = foldl (\<lambda>d (property, v). AList.update property v d) this other"

text \<open>
  Modelled from the spec: \<open>WP_Style_Engine_CSS_Rule::add_declarations\<close> delegates to
  the merge of the rule's own declaration set.
\<close>

definition add_declarations :: "css_rule \<Rightarrow> declarations \<Rightarrow> css_rule" where
  "add_declarations rule ds = rule\<lparr>declarations := merge_declarations (declarations rule) ds\<rparr>"

text \<open>
  Modelled from the spec: the constructor of \<open>WP_Style_Engine_CSS_Rule\<close> makes a rule
  from a selector and an initial declaration set, which the rule owns.
\<close>

definition new_css_rule :: "string \<Rightarrow> declarations \<Rightarrow> css_rule" where
  "new_css_rule sel ds = \<lparr>selector = sel, declarations = ds\<rparr>"

definition newline :: string where
  "newline = [CHR 0x0A]"

definition tab :: string where
  "tab = [CHR 0x09]"

text \<open>
  Modelled from the spec: serialisation of a declaration set renders
  \<open>property: value;\<close> pairs; when pretty, a newline and an indentation come before
  each declaration; otherwise the declarations are concatenated.
\<close>

definition get_declarations_string :: "declarations \<Rightarrow> bool \<Rightarrow> string" where
  "get_declarations_string ds pretty =
     concat (map (\<lambda>(property, v).
       (if pretty then newline @ tab else []) @ property @ '': '' @ v @ '';'') ds)"

text \<open>
  Modelled from the spec: \<open>WP_Style_Engine_CSS_Rule::get_css\<close> returns the empty
  string when the declaration set is empty, and otherwise the selector followed by the
  declarations in braces (on separate lines when pretty, on a single line otherwise).
\<close>

definition rule_get_css :: "css_rule \<Rightarrow> bool \<Rightarrow> string" where
  "rule_get_css rule pretty =
     (if declarations rule = [] then []
      else selector rule @ (if pretty then '' {'' else ''{'')
           @ get_declarations_string (declarations rule) pretty
           @ (if pretty then newline @ ''}'' else ''}''))"

text \<open>
  Modelled from the spec: \<open>get_all_rules\<close> of a store returns the rules it holds, in
  the order in which their selectors were first seen.
\<close>

definition get_all_rules :: "rules_store \<Rightarrow> ref list" where
  "get_all_rules store = rules store"

subsection \<open>PHP and WordPress functions used by the processor\<close>

text \<open>
  \<open>ksort\<close> sorts an array by key. Property names are compared as strings, byte by
  byte (PHP compares two keys numerically when both are numeric strings, which
  property names are not).
\<close>

definition ksort :: "declarations \<Rightarrow> declarations" where
  "ksort ds = sort_key fst ds"

primrec implode :: "string \<Rightarrow> string list \<Rightarrow> string" where
  "implode sep [] = []"
| "implode sep (x # xs) = (if xs = [] then x else x @ sep @ implode sep xs)"

definition json_escape :: "char \<Rightarrow> string" where
  "json_escape c =
     (if c = CHR 0x22 then [CHR 0x5C, CHR 0x22]
      else if c = CHR 0x5C then [CHR 0x5C, CHR 0x5C]
      else if c = CHR ''/'' then [CHR 0x5C, CHR ''/'']
      else [c])"

definition json_string :: "string \<Rightarrow> string" where
  "json_string s = [CHR 0x22] @ concat (map json_escape s) @ [CHR 0x22]"

text \<open>
  \<open>wp_json_encode\<close> of an array of strings keyed by strings: the empty array is
  \<open>[]\<close>, any other one is a JSON object with its members in the order of the array.
  Quotes, backslashes and slashes are escaped; the escapes that PHP writes for control
  and non-ASCII characters are left out, the characters stand for themselves.
\<close>

definition wp_json_encode :: "declarations \<Rightarrow> string" where
  "wp_json_encode ds =
     (if ds = [] then ''[]''
      else ''{'' @ implode '','' (map (\<lambda>(k, v). json_string k @ '':'' @ json_string v) ds) @ ''}'')"

text \<open>\<open>array_keys($array, $value, true)\<close>: the keys holding exactly that value, in order.\<close>

definition array_keys :: "('k \<times> 'v) list \<Rightarrow> 'v \<Rightarrow> 'k list" where
  "array_keys arr v = map fst (filter (\<lambda>(k, x). x = v) arr)"

subsection \<open>add_store and add_rules\<close>

definition add_store :: "processor \<Rightarrow> rules_store \<Rightarrow> processor" where
  "add_store p store = p\<lparr>stores := AList.update (name store) store (stores p)\<rparr>"

text \<open>One iteration of the loop of \<open>add_rules\<close>, for the rule object at address \<open>r\<close>.\<close>

definition add_rule :: "processor \<Rightarrow> ref \<Rightarrow> processor" where
  "add_rule p r =
     (let sel = selector (heap p ! r) in
      case map_of (css_rules p) sel of
        Some existing \<Rightarrow>
          p\<lparr>heap := (heap p)[existing :=
                add_declarations (heap p ! existing) (declarations (heap p ! r))]\<rparr>
      | None \<Rightarrow> p\<lparr>css_rules := AList.update sel r (css_rules p)\<rparr>)"

datatype rules_arg = Rule ref | Rules "ref list"

definition add_rules :: "processor \<Rightarrow> rules_arg \<Rightarrow> processor" where
  "add_rules p arg =
     (let rs = (case arg of Rule r \<Rightarrow> [r] | Rules rs \<Rightarrow> rs)
      in foldl add_rule p rs)"

subsection \<open>combine_rules_selectors\<close>

definition rule_json :: "css_rule \<Rightarrow> string" where
  "rule_json rule = wp_json_encode (ksort (declarations rule))"

definition selectors_json_of :: "processor \<Rightarrow> (string \<times> string) list" where
  "selectors_json_of p =
     foldl (\<lambda>sj (k, r). AList.update (selector (heap p ! r)) (rule_json (heap p ! r)) sj)
       [] (css_rules p)"

definition unset_all :: "'k list \<Rightarrow> ('k \<times> 'v) list \<Rightarrow> ('k \<times> 'v) list" where
  "unset_all ks arr = foldl (\<lambda>a k. AList.delete k a) arr ks"

text \<open>
  The second loop runs over the entries that \<open>$selectors_json\<close> had when the loop
  began (PHP iterates over a copy), while \<open>array_keys\<close> reads the array as the loop
  has changed it. Reading \<open>$this->css_rules[$selector]\<close> for an absent key is a fatal
  error (a method call on null): the result \<open>None\<close>.
\<close>

fun combine_loop ::
  "(string \<times> string) list \<Rightarrow> (string \<times> string) list \<Rightarrow> processor \<Rightarrow> processor option" where
  "combine_loop [] selectors_json p = Some p"
| "combine_loop ((sel, json) # rest) selectors_json p =
     (let duplicates = array_keys selectors_json json in
      if length duplicates \<le> 1 then combine_loop rest selectors_json p
      else
        (case map_of (css_rules p) sel of
           None \<Rightarrow> None
         | Some r \<Rightarrow>
             (let ds = declarations (heap p ! r);
                  selectors_json' = unset_all duplicates selectors_json;
                  css_rules' = unset_all duplicates (css_rules p);
                  duplicate_selectors = implode '','' duplicates
              in combine_loop rest selectors_json'
                   (p\<lparr>heap := heap p @ [new_css_rule duplicate_selectors ds],
                      css_rules := AList.update duplicate_selectors (length (heap p)) css_rules'\<rparr>))))"

definition combine_rules_selectors :: "processor \<Rightarrow> processor option" where
  "combine_rules_selectors p = combine_loop (selectors_json_of p) (selectors_json_of p) p"

subsection \<open>get_css\<close>

text \<open>
  The options array may leave out either key; \<open>wp_parse_args\<close> fills the gaps from
  the defaults (optimize true, prettify as \<open>SCRIPT_DEBUG\<close>). The constant
  \<open>SCRIPT_DEBUG\<close> is defined outside the sources and is a parameter here. The options
  are booleans, so that the test \<open>true === $options['optimize']\<close> is the option itself.
\<close>

record options =
  optimize :: "bool option"
  prettify :: "bool option"

definition wp_parse_args :: "options \<Rightarrow> bool \<times> bool \<Rightarrow> bool \<times> bool" where
  "wp_parse_args args defaults =
     (case optimize args of Some b \<Rightarrow> b | None \<Rightarrow> fst defaults,
      case prettify args of Some b \<Rightarrow> b | None \<Rightarrow> snd defaults)"

definition pull_stores :: "processor \<Rightarrow> processor" where
  "pull_stores p = foldl (\<lambda>q store. add_rules q (Rules (get_all_rules store))) p (map snd (stores p))"

definition build_css :: "processor \<Rightarrow> bool \<Rightarrow> string" where
  "build_css p pretty =
     foldl (\<lambda>css (k, r). css @ rule_get_css (heap p ! r) pretty @ (if pretty then newline else []))
       [] (css_rules p)"

definition get_css :: "bool \<Rightarrow> options \<Rightarrow> processor \<Rightarrow> (string \<times> processor) option" where
  "get_css script_debug args p =
     (let (opt, pretty) = wp_parse_args args (True, script_debug);
          p1 = pull_stores p
      in case (if opt then combine_rules_selectors p1 else Some p1) of
           None \<Rightarrow> None
         | Some p2 \<Rightarrow> Some (build_css p2 pretty, p2))"

text \<open>
  \<open>get_css\<close> returns the string and leaves the processor changed: the rules of the
  stores have been added and, when optimizing, combined.
\<close>

text \<open>The rules of the working set, read through the heap.\<close>

definition working_set :: "processor \<Rightarrow> (string \<times> css_rule) list" where
  "working_set p = map (\<lambda>(k, r). (k, heap p ! r)) (css_rules p)"

subsection \<open>Well-formed processors\<close>

text \<open>
  In a processor that PHP can build, the keys of \<open>$css_rules\<close> are pairwise
  different (it is an array), every entry refers to a live object, and the entry stored
  under a key is a rule with that selector: \<open>add_rules\<close> and
  \<open>combine_rules_selectors\<close> never store a rule under another key.
\<close>

definition valid_processor :: "processor \<Rightarrow> bool" where
  "valid_processor p \<longleftrightarrow>
     distinct (map fst (css_rules p)) \<and>
     list_all (\<lambda>(k, r). r < length (heap p) \<and> selector (heap p ! r) = k) (css_rules p)"

text \<open>Every rule held by an attached store is a live object.\<close>

definition valid_stores :: "processor \<Rightarrow> bool" where
  "valid_stores p \<longleftrightarrow>
     list_all (\<lambda>(n, store). list_all (\<lambda>r. r < length (heap p)) (rules store)) (stores p)"

definition rule_refs :: "rules_arg \<Rightarrow> ref list" where
  "rule_refs arg = (case arg of Rule r \<Rightarrow> [r] | Rules rs \<Rightarrow> rs)"

text \<open>
  The declarations of a rule object are a PHP array: its properties are pairwise
  different.
\<close>

definition valid_heap :: "processor \<Rightarrow> bool" where
  "valid_heap p \<longleftrightarrow> list_all (\<lambda>rule. distinct (map fst (declarations rule))) (heap p)"

text \<open>
  The rules of the attached stores, store after store in registration order, the rules
  of each store in its own order.
\<close>

definition store_refs :: "processor \<Rightarrow> ref list" where
  "store_refs p = concat (map (\<lambda>(n, store). get_all_rules store) (stores p))"

subsection \<open>add_rules, as the specification words it\<close>

text \<open>
  The specification describes \<open>add_rules\<close> rule by rule: a rule whose selector is in
  the working set is merged into the existing entry, any other rule becomes a new entry
  at the end. For a whole sequence this reads as follows. The new entries are the rules
  of the sequence whose selector was met neither in the working set (the selectors
  \<open>ks\<close>) nor earlier in the sequence, in the order of the sequence.
\<close>

fun new_entries :: "css_rule list \<Rightarrow> string list \<Rightarrow> ref list \<Rightarrow> (string \<times> ref) list" where
  "new_entries h ks [] = []"
| "new_entries h ks (r # rs) =
     (if selector (h ! r) \<in> set ks then new_entries h ks rs
      else (selector (h ! r), r) # new_entries h (selector (h ! r) # ks) rs)"

text \<open>
  The rule object \<open>x\<close> of an entry, once the sequence \<open>rs\<close> has been fed: every rule
  of the sequence with the selector of \<open>x\<close>, other than \<open>x\<close> itself, has been merged
  into it, in the order of the sequence, later values winning.
\<close>

definition merged_rule :: "css_rule list \<Rightarrow> ref list \<Rightarrow> ref \<Rightarrow> css_rule" where
  "merged_rule h rs x =
     (h ! x)\<lparr>declarations :=
        foldl merge_declarations (declarations (h ! x))
          (map (\<lambda>r. declarations (h ! r))
             (filter (\<lambda>r. selector (h ! r) = selector (h ! x) \<and> r \<noteq> x) rs))\<rparr>"

subsection \<open>Store rules that a call of get_css keeps\<close>

text \<open>
  \<open>p\<close> is a processor and \<open>p1\<close> the processor that a call of \<open>get_css\<close> on \<open>p\<close>
  left. No rule of the stores was combined or overwritten by that call: the selector of
  every rule of the stores is filed in \<open>p1\<close> as it was when the call had pulled the
  stores, under its own key and with the same rule object.
\<close>

definition stores_kept :: "processor \<Rightarrow> processor \<Rightarrow> bool" where
  "stores_kept p p1 \<longleftrightarrow>
     list_all (\<lambda>r. map_of (css_rules p1) (selector (heap p ! r))
                    = map_of (css_rules (pull_stores p)) (selector (heap p ! r)))
       (store_refs p)"

subsection \<open>The combine pass, as the specification words it\<close>

text \<open>
  The specification describes the pass by groups: record the canonical encoding of
  every rule; group the selectors by identical encoding, each group once, in the order
  in which its first member is met; leave a group of fewer than two selectors alone;
  for any other group, take the declarations of its first member, join the members with
  commas, remove the members and store the combined rule under the joined selector.
\<close>

definition encodings :: "(string \<times> css_rule) list \<Rightarrow> (string \<times> string) list" where
  "encodings ws = map (\<lambda>(k, rule). (k, rule_json rule)) ws"

fun groups_from ::
  "(string \<times> string) list \<Rightarrow> string list \<Rightarrow> (string \<times> string) list \<Rightarrow> string list list" where
  "groups_from sj seen [] = []"
| "groups_from sj seen ((k, j) # rest) =
     (if j \<in> set seen \<or> length (array_keys sj j) \<le> 1 then groups_from sj (j # seen) rest
      else array_keys sj j # groups_from sj (j # seen) rest)"

definition combine_groups :: "(string \<times> string) list \<Rightarrow> string list list" where
  "combine_groups sj = groups_from sj [] sj"

definition declarations_of :: "(string \<times> css_rule) list \<Rightarrow> string \<Rightarrow> declarations" where
  "declarations_of ws k = (case map_of ws k of Some rule \<Rightarrow> declarations rule | None \<Rightarrow> [])"

definition combined_rule :: "(string \<times> css_rule) list \<Rightarrow> string list \<Rightarrow> string \<times> css_rule" where
  "combined_rule ws G =
     (implode '','' G, new_css_rule (implode '','' G) (declarations_of ws (hd G)))"

definition group_step :: "(string \<times> css_rule) list \<Rightarrow> string list \<Rightarrow> (string \<times> css_rule) list" where
  "group_step ws G =
     AList.update (fst (combined_rule ws G)) (snd (combined_rule ws G))
       (filter (\<lambda>(k, rule). k \<notin> set G) ws)"

definition combine_spec :: "(string \<times> css_rule) list \<Rightarrow> (string \<times> css_rule) list" where
  "combine_spec ws = foldl group_step ws (combine_groups (encodings ws))"

text \<open>
  No combined selector is already a key of the working set, and no two groups have the
  same combined selector.
\<close>

definition collision_free :: "(string \<times> css_rule) list \<Rightarrow> bool" where
  "collision_free ws \<longleftrightarrow>
     distinct (map (implode '','') (combine_groups (encodings ws)))
     \<and> list_all (\<lambda>G. implode '','' G \<notin> fst ` set ws) (combine_groups (encodings ws))"

text \<open>
  No two groups have the same combined selector, and no combined selector is itself a
  member of a group.
\<close>

definition joins_clear :: "(string \<times> css_rule) list \<Rightarrow> bool" where
  "joins_clear ws \<longleftrightarrow>
     distinct (map (implode '','') (combine_groups (encodings ws)))
     \<and> list_all (\<lambda>G. implode '','' G \<notin> set (concat (combine_groups (encodings ws))))
          (combine_groups (encodings ws))"

subsection \<open>Output without its layout\<close>

text \<open>A string without its blanks, tabs and newlines.\<close>

definition strip_ws :: "string \<Rightarrow> string" where
  "strip_ws s = filter (\<lambda>c. c \<noteq> CHR '' '' \<and> c \<noteq> CHR 0x09 \<and> c \<noteq> CHR 0x0A) s"

subsection \<open>Auxiliary notions for the proofs about the loop\<close>

text \<open>
  The entries of \<open>$selectors_json\<close> that are left once the groups of the encodings in
  \<open>seen\<close> have been combined.
\<close>

definition pending :: "(string \<times> string) list \<Rightarrow> string list \<Rightarrow> (string \<times> string) list" where
  "pending sj seen = filter (\<lambda>(k, j). \<not> (j \<in> set seen \<and> 2 \<le> length (array_keys sj j))) sj"

text \<open>The encodings of the groups of \<open>groups_from\<close>, in the same order.\<close>

fun group_jsons ::
  "(string \<times> string) list \<Rightarrow> string list \<Rightarrow> (string \<times> string) list \<Rightarrow> string list" where
  "group_jsons sj seen [] = []"
| "group_jsons sj seen ((k, j) # rest) =
     (if j \<in> set seen \<or> length (array_keys sj j) \<le> 1 then group_jsons sj (j # seen) rest
      else j # group_jsons sj (j # seen) rest)"

text \<open>
  Storing the combined rule of a group, built from the working set \<open>ws0\<close> the pass
  started with: an array assignment under the joined selector.
\<close>

definition store_combined ::
  "(string \<times> css_rule) list \<Rightarrow> (string \<times> css_rule) list \<Rightarrow> string list
     \<Rightarrow> (string \<times> css_rule) list" where
  "store_combined ws0 ws G = AList.update (fst (combined_rule ws0 G)) (snd (combined_rule ws0 G)) ws"

text \<open>
  What holds of the working set \<open>cr\<close> once the groups of the encodings in \<open>P\<close> have
  been combined, \<open>ws0\<close> being the working set at the start of the pass: every rule of
  \<open>ws0\<close> whose encoding is not in \<open>P\<close> still has its key; and every entry is either
  such a rule, untouched, or a combined rule whose encoding is in \<open>P\<close> and is shared
  with no other entry.
\<close>

definition combine_inv ::
  "(string \<times> css_rule) list \<Rightarrow> string set \<Rightarrow> (string \<times> css_rule) list \<Rightarrow> bool" where
  "combine_inv ws0 P cr \<longleftrightarrow>
     distinct (map fst cr)
     \<and> (\<forall>k rule. (k, rule) \<in> set ws0 \<and> rule_json rule \<notin> P \<longrightarrow> k \<in> fst ` set cr)
     \<and> (\<forall>k rule. (k, rule) \<in> set cr \<longrightarrow>
          (map_of ws0 k = Some rule \<and> rule_json rule \<notin> P
             \<and> k \<notin> (\<lambda>j. implode '','' (array_keys (encodings ws0) j)) ` P)
          \<or> (selector rule = k \<and> rule_json rule \<in> P
             \<and> (\<forall>k' rule'. (k', rule') \<in> set cr \<and> rule_json rule' = rule_json rule \<longrightarrow> k' = k)))"

subsection \<open>Example processors\<close>

definition new_processor :: "css_rule list \<Rightarrow> processor" where
  "new_processor objects = \<lparr>heap = objects, stores = [], css_rules = []\<rparr>"

text \<open>Three rule objects, added directly in the order \<open>.a\<close>, \<open>.b\<close>, \<open>.c\<close>.\<close>

definition abc_processor :: processor where
  "abc_processor =
     add_rules
       (new_processor
          [\<lparr>selector = ''.a'', declarations = [(''color'', ''red'')]\<rparr>,
           \<lparr>selector = ''.b'', declarations = [(''color'', ''red'')]\<rparr>,
           \<lparr>selector = ''.c'', declarations = [(''color'', ''blue'')]\<rparr>])
       (Rules [0, 1, 2])"

text \<open>Two stores, each holding one rule, attached in the order block-supports, global-styles.\<close>

definition two_stores_processor :: processor where
  "two_stores_processor =
     add_store
       (add_store
          (new_processor
             [\<lparr>selector = ''.wp-1'', declarations = [(''margin'', ''0'')]\<rparr>,
              \<lparr>selector = ''.wp-2'', declarations = [(''margin'', ''0'')]\<rparr>])
          \<lparr>name = ''block-supports'', rules = [0]\<rparr>)
       \<lparr>name = ''global-styles'', rules = [1]\<rparr>"

text \<open>A single rule with no declarations.\<close>

definition empty_rule_processor :: processor where
  "empty_rule_processor =
     add_rules (new_processor [\<lparr>selector = ''.a'', declarations = []\<rparr>]) (Rule 0)"

text \<open>Two rule objects with the selector \<open>.a\<close> and a third with the selector \<open>.b\<close>.\<close>

definition red_blue_objects :: "css_rule list" where
  "red_blue_objects =
     [\<lparr>selector = ''.a'', declarations = [(''color'', ''red'')]\<rparr>,
      \<lparr>selector = ''.a'', declarations = [(''color'', ''blue'')]\<rparr>,
      \<lparr>selector = ''.b'', declarations = [(''color'', ''green'')]\<rparr>]"

text \<open>The processor of the two stores after a first optimized \<open>get_css\<close>.\<close>

definition two_stores_after_first :: processor where
  "two_stores_after_first =
     \<lparr>heap = [\<lparr>selector = ''.wp-1'', declarations = [(''margin'', ''0'')]\<rparr>,
              \<lparr>selector = ''.wp-2'', declarations = [(''margin'', ''0'')]\<rparr>,
              \<lparr>selector = ''.wp-1,.wp-2'', declarations = [(''margin'', ''0'')]\<rparr>],
      stores = [(''block-supports'', \<lparr>name = ''block-supports'', rules = [0]\<rparr>),
                (''global-styles'', \<lparr>name = ''global-styles'', rules = [1]\<rparr>)],
      css_rules = [(''.wp-1,.wp-2'', 2)]\<rparr>"

text \<open>
  A rule whose selector is \<open>.a,.b\<close>, with declarations of its own, beside the rules
  \<open>.a\<close> and \<open>.b\<close> that share their declarations.
\<close>

definition collision_processor :: processor where
  "collision_processor =
     add_rules
       (new_processor
          [\<lparr>selector = ''.a,.b'', declarations = [(''margin'', ''0'')]\<rparr>,
           \<lparr>selector = ''.a'', declarations = [(''color'', ''red'')]\<rparr>,
           \<lparr>selector = ''.b'', declarations = [(''color'', ''red'')]\<rparr>])
       (Rules [0, 1, 2])"

text \<open>
  The rule \<open>.a {color: red}\<close> added directly, and a store holding
  \<open>.a {color: blue}\<close> and \<open>.b {color: green}\<close>.
\<close>

definition red_blue_processor :: processor where
  "red_blue_processor =
     add_store (add_rules (new_processor red_blue_objects) (Rule 0))
       \<lparr>name = ''block-supports'', rules = [1, 2]\<rparr>"

text \<open>Two stores whose rules have different declarations.\<close>

definition plain_stores_processor :: processor where
  "plain_stores_processor =
     add_store
       (add_store
          (new_processor
             [\<lparr>selector = ''.wp-1'', declarations = [(''margin'', ''0'')]\<rparr>,
              \<lparr>selector = ''.wp-2'', declarations = [(''margin'', ''1px'')]\<rparr>])
          \<lparr>name = ''block-supports'', rules = [0]\<rparr>)
       \<lparr>name = ''global-styles'', rules = [1]\<rparr>"

text \<open>The same processor after a first optimized \<open>get_css\<close>.\<close>

definition plain_stores_after_first :: processor where
  "plain_stores_after_first =
     \<lparr>heap = [\<lparr>selector = ''.wp-1'', declarations = [(''margin'', ''0'')]\<rparr>,
              \<lparr>selector = ''.wp-2'', declarations = [(''margin'', ''1px'')]\<rparr>],
      stores = [(''block-supports'', \<lparr>name = ''block-supports'', rules = [0]\<rparr>),
                (''global-styles'', \<lparr>name = ''global-styles'', rules = [1]\<rparr>)],
      css_rules = [(''.wp-1'', 0), (''.wp-2'', 1)]\<rparr>"

text \<open>
  A rule whose selector is \<open>.a,.b\<close> and whose declarations are those of the rule
  \<open>.c\<close>, with the rules \<open>.a\<close> and \<open>.b\<close> that share their declarations: once
  before them, once after them.
\<close>

definition shared_collision_processor :: processor where
  "shared_collision_processor =
     add_rules
       (new_processor
          [\<lparr>selector = ''.c'', declarations = [(''color'', ''blue'')]\<rparr>,
           \<lparr>selector = ''.a,.b'', declarations = [(''color'', ''blue'')]\<rparr>,
           \<lparr>selector = ''.a'', declarations = [(''color'', ''red'')]\<rparr>,
           \<lparr>selector = ''.b'', declarations = [(''color'', ''red'')]\<rparr>])
       (Rules [0, 1, 2, 3])"

definition late_collision_processor :: processor where
  "late_collision_processor =
     add_rules
       (new_processor
          [\<lparr>selector = ''.a'', declarations = [(''color'', ''red'')]\<rparr>,
           \<lparr>selector = ''.b'', declarations = [(''color'', ''red'')]\<rparr>,
           \<lparr>selector = ''.c'', declarations = [(''color'', ''blue'')]\<rparr>,
           \<lparr>selector = ''.a,.b'', declarations = [(''color'', ''blue'')]\<rparr>])
       (Rules [0, 1, 2, 3])"

section \<open>Properties\<close>

lemmas eval_defs = new_processor_def add_rules_def add_rule_def add_store_def add_declarations_def
  get_css_def wp_parse_args_def pull_stores_def get_all_rules_def
  combine_rules_selectors_def selectors_json_of_def
  rule_json_def wp_json_encode_def ksort_def json_string_def json_escape_def array_keys_def
  unset_all_def new_css_rule_def merge_declarations_def Let_def build_css_def rule_get_css_def
  get_declarations_string_def working_set_def newline_def tab_def

subsection \<open>PHP arrays as association lists\<close>



lemma update_fresh: "k \<notin> fst ` set al \<Longrightarrow> AList.update k v al = al @ [(k, v)]"
  by (induction al) auto

lemma unset_all_filter: "unset_all ks arr = filter (\<lambda>(k, v). k \<notin> set ks) arr"
proof (induction ks arbitrary: arr)
  case Nil
  then show ?case by (simp add: unset_all_def)
next
  case (Cons a ks)
  have "unset_all (a # ks) arr = unset_all ks (AList.delete a arr)"
    by (simp add: unset_all_def)
  also have "\<dots> = filter (\<lambda>(k, v). k \<notin> set ks) (AList.delete a arr)"
    by (rule Cons.IH)
  also have "\<dots> = filter (\<lambda>(k, v). k \<notin> set (a # ks)) arr"
    by (auto simp: AList.delete_eq intro: filter_cong)
  finally show ?case .
qed

lemma foldl_update_fresh:
  "distinct (map f xs) \<Longrightarrow> f ` set xs \<inter> fst ` set acc = {} \<Longrightarrow>
   foldl (\<lambda>a x. AList.update (f x) (g x) a) acc xs = acc @ map (\<lambda>x. (f x, g x)) xs"
proof (induction xs arbitrary: acc)
  case Nil
  then show ?case by simp
next
  case (Cons x xs)
  have fresh: "f x \<notin> fst ` set acc" using Cons.prems by auto
  have "foldl (\<lambda>a x. AList.update (f x) (g x) a) (acc @ [(f x, g x)]) xs
        = (acc @ [(f x, g x)]) @ map (\<lambda>x. (f x, g x)) xs"
    using Cons.prems by (intro Cons.IH) auto
  then show ?case using fresh by (simp add: update_fresh)
qed

lemma selectors_json_of_valid:
  assumes "valid_processor p"
  shows "selectors_json_of p = encodings (working_set p)"
proof -
  let ?f = "\<lambda>(k, r). selector (heap p ! r)"
  let ?g = "\<lambda>(k, r). rule_json (heap p ! r)"
  have keys: "map ?f (css_rules p) = map fst (css_rules p)"
    using assms by (auto simp: valid_processor_def list_all_iff)
  have "selectors_json_of p = foldl (\<lambda>a x. AList.update (?f x) (?g x) a) [] (css_rules p)"
    by (simp add: selectors_json_of_def case_prod_unfold)
  also have "\<dots> = [] @ map (\<lambda>x. (?f x, ?g x)) (css_rules p)"
  proof (rule foldl_update_fresh)
    show "distinct (map ?f (css_rules p))"
      using assms unfolding keys by (simp add: valid_processor_def)
  qed simp
  also have "\<dots> = encodings (working_set p)"
    using assms by (auto simp: encodings_def working_set_def valid_processor_def list_all_iff)
  finally show ?thesis .
qed

lemma map_update_values:
  "map (\<lambda>(k, r). (k, f r)) (AList.update k v al) = AList.update k (f v) (map (\<lambda>(k, r). (k, f r)) al)"
  by (induction al) auto

lemma working_set_step:
  assumes "valid_processor p"
  shows "working_set (p\<lparr>heap := heap p @ [x],
            css_rules := AList.update k (length (heap p)) (unset_all G (css_rules p))\<rparr>)
         = AList.update k x (filter (\<lambda>(k', rule). k' \<notin> set G) (working_set p))"
proof -
  have old: "map (\<lambda>(k, r). (k, (heap p @ [x]) ! r)) (filter (\<lambda>(k, v). k \<notin> set G) (css_rules p))
          = filter (\<lambda>(k', rule). k' \<notin> set G) (working_set p)"
    using assms
    by (auto simp: working_set_def valid_processor_def list_all_iff filter_map comp_def
        case_prod_unfold nth_append intro!: map_cong)
  show ?thesis
    by (simp add: working_set_def map_update_values unset_all_filter old[unfolded working_set_def])
qed

lemma set_update_subset: "set (AList.update k v al) \<subseteq> insert (k, v) (set al)"
  by (induction al) auto

lemma valid_step:
  assumes "valid_processor p"
  shows "valid_processor (p\<lparr>heap := heap p @ [new_css_rule k ds],
            css_rules := AList.update k (length (heap p)) (unset_all G (css_rules p))\<rparr>)"
proof -
  let ?cr = "filter (\<lambda>(k, v). k \<notin> set G) (css_rules p)"
  have d: "distinct (map fst ?cr)" using assms by (simp add: valid_processor_def distinct_map_filter)
  have "set (AList.update k (length (heap p)) ?cr) \<subseteq> insert (k, length (heap p)) (set ?cr)"
    by (rule set_update_subset)
  then show ?thesis
    using assms d
    by (auto simp: valid_processor_def list_all_iff unset_all_filter AList.distinct_update
        nth_append new_css_rule_def)
qed



subsection \<open>The loop of the combine pass works group by group\<close>



lemma array_keys_pending:
  "array_keys (pending sj seen) j =
     (if j \<in> set seen \<and> 2 \<le> length (array_keys sj j) then [] else array_keys sj j)"
proof -
  have "filter (\<lambda>(k, x). x = j) (pending sj seen)
        = filter (\<lambda>(k, x). x = j \<and> \<not> (j \<in> set seen \<and> 2 \<le> length (array_keys sj j))) sj"
    unfolding pending_def filter_filter by (rule filter_cong) auto
  then show ?thesis by (auto simp: array_keys_def)
qed

lemma mem_array_keys: "k \<in> set (array_keys sj j) \<longleftrightarrow> (k, j) \<in> set sj"
  by (force simp: array_keys_def)

lemma distinct_keys_unique:
  "distinct (map fst sj) \<Longrightarrow> (k, x) \<in> set sj \<Longrightarrow> (k, y) \<in> set sj \<Longrightarrow> x = y"
  by (meson eq_key_imp_eq_value)

lemma pending_skip:
  "j \<in> set seen \<or> length (array_keys sj j) \<le> 1 \<Longrightarrow> pending sj (j # seen) = pending sj seen"
  unfolding pending_def by (rule filter_cong) auto

lemma pending_unset:
  assumes "distinct (map fst sj)" and "2 \<le> length (array_keys sj j)"
  shows "unset_all (array_keys sj j) (pending sj seen) = pending sj (j # seen)"
proof -
  have "filter (\<lambda>(k, v). k \<notin> set (array_keys sj j)) (pending sj seen)
        = pending sj (j # seen)"
    unfolding pending_def filter_filter
  proof (rule filter_cong[OF refl])
    fix x assume x: "x \<in> set sj"
    obtain k v where kv: "x = (k, v)" by (cases x)
    have "k \<in> set (array_keys sj j) \<longleftrightarrow> v = j"
      using x kv assms(1) by (auto simp: mem_array_keys dest: distinct_keys_unique)
    then show "((case x of (k, j) \<Rightarrow> \<not> (j \<in> set seen \<and> 2 \<le> length (array_keys sj j))) \<and>
               (case x of (k, v) \<Rightarrow> k \<notin> set (array_keys sj j)))
             = (case x of (k, ja) \<Rightarrow> \<not> (ja \<in> set (j # seen) \<and> 2 \<le> length (array_keys sj ja)))"
      using assms(2) kv by auto
  qed
  then show ?thesis by (simp add: unset_all_filter)
qed

lemma array_keys_first:
  "j \<notin> snd ` set pre \<Longrightarrow> array_keys (pre @ (sel, j) # rest) j = sel # array_keys rest j"
proof -
  assume "j \<notin> snd ` set pre"
  then have "filter (\<lambda>(k, x). x = j) pre = []"
    by (auto simp: filter_empty_conv image_iff)
  then show ?thesis by (simp add: array_keys_def)
qed

lemma keys_filter_unset:
  "fst ` set (filter (\<lambda>(k, v). k \<notin> G) al) = fst ` set al - G"
  by (auto simp: image_iff)

lemma map_of_working_set:
  "map_of (working_set p) k = map_option (\<lambda>r. heap p ! r) (map_of (css_rules p) k)"
  by (simp add: working_set_def map_of_map)

lemma combine_loop_groups:
  assumes d: "distinct (map fst sj)"
  shows "sj = pre @ rest \<Longrightarrow> set seen = snd ` set pre \<Longrightarrow> valid_processor p \<Longrightarrow>
         fst ` set (pending sj seen) \<subseteq> fst ` set (css_rules p) \<Longrightarrow>
         \<exists>p'. combine_loop rest (pending sj seen) p = Some p'
            \<and> working_set p' = foldl group_step (working_set p) (groups_from sj seen rest)
            \<and> valid_processor p' \<and> stores p' = stores p"
proof (induction rest arbitrary: pre seen p)
  case Nil
  then show ?case by simp
next
  case (Cons e rest)
  obtain sel j where e: "e = (sel, j)" by (cases e)
  have split': "sj = (pre @ [(sel, j)]) @ rest" using Cons.prems(1) e by simp
  have seen': "set (j # seen) = snd ` set (pre @ [(sel, j)])" using Cons.prems(2) by auto
  show ?case
  proof (cases "j \<in> set seen \<or> length (array_keys sj j) \<le> 1")
    case True
    then have short: "length (array_keys (pending sj seen) j) \<le> 1"
      by (auto simp: array_keys_pending)
    have pend: "pending sj (j # seen) = pending sj seen" using True by (rule pending_skip)
    from Cons.IH[OF split' seen' Cons.prems(3)] Cons.prems(4) pend
    obtain p' where "combine_loop rest (pending sj seen) p = Some p'"
      "working_set p' = foldl group_step (working_set p) (groups_from sj (j # seen) rest)"
      "valid_processor p'" "stores p' = stores p"
      by auto
    then show ?thesis using True short by (simp add: e)
  next
    case False
    let ?G = "array_keys sj j"
    have multi: "2 \<le> length ?G" and unseen: "j \<notin> set seen" using False by auto
    have dups: "array_keys (pending sj seen) j = ?G" using unseen by (simp add: array_keys_pending)
    have hdG: "hd ?G = sel"
      using unseen Cons.prems(1,2) e by (simp add: array_keys_first)
    have "(sel, j) \<in> set (pending sj seen)"
      using Cons.prems(1) e unseen by (auto simp: pending_def)
    then have "sel \<in> fst ` set (css_rules p)" using Cons.prems(4) by force
    then obtain r where r: "map_of (css_rules p) sel = Some r"
      by (metis (no_types, lifting) domD dom_map_of_conv_image_fst)
    let ?k = "implode '','' ?G"
    let ?x = "new_css_rule ?k (declarations (heap p ! r))"
    let ?p = "p\<lparr>heap := heap p @ [?x],
                css_rules := AList.update ?k (length (heap p)) (unset_all ?G (css_rules p))\<rparr>"
    have pend: "unset_all ?G (pending sj seen) = pending sj (j # seen)"
      using d multi by (rule pending_unset)
    have v: "valid_processor ?p" using Cons.prems(3) by (rule valid_step)
    have keys: "fst ` set (pending sj (j # seen)) \<subseteq> fst ` set (css_rules ?p)"
    proof -
      have "fst ` set (pending sj (j # seen)) = fst ` set (pending sj seen) - set ?G"
        unfolding pend[symmetric] unset_all_filter by (rule keys_filter_unset)
      also have "\<dots> \<subseteq> fst ` set (css_rules p) - set ?G" using Cons.prems(4) by auto
      also have "\<dots> \<subseteq> fst ` set (css_rules ?p)"
        unfolding keys_filter_unset[symmetric]
        by (auto simp: AList.dom_update unset_all_filter)
      finally show ?thesis .
    qed
    have ws: "working_set ?p = group_step (working_set p) ?G"
      using working_set_step[OF Cons.prems(3), where x = ?x and k = ?k and G = ?G] r
      by (simp add: group_step_def combined_rule_def declarations_of_def hdG map_of_working_set)
    from Cons.IH[OF split' seen' v keys]
    obtain p' where "combine_loop rest (pending sj (j # seen)) ?p = Some p'"
      "working_set p' = foldl group_step (working_set ?p) (groups_from sj (j # seen) rest)"
      "valid_processor p'" "stores p' = stores ?p"
      by auto
    then show ?thesis using False multi dups r pend ws
      by (simp add: e Let_def)
  qed
qed

lemma combine_refines:
  assumes "valid_processor p"
  shows "\<exists>p'. combine_rules_selectors p = Some p'
            \<and> working_set p' = combine_spec (working_set p)
            \<and> valid_processor p' \<and> stores p' = stores p"
proof -
  let ?sj = "encodings (working_set p)"
  have keys: "map fst ?sj = map fst (css_rules p)"
    by (simp add: encodings_def working_set_def comp_def case_prod_unfold)
  have d: "distinct (map fst ?sj)" using assms unfolding keys by (simp add: valid_processor_def)
  have pend: "pending ?sj [] = ?sj" by (simp add: pending_def)
  have "fst ` set (pending ?sj []) \<subseteq> fst ` set (css_rules p)"
    unfolding pend using keys by (metis list.set_map subset_refl)
  from combine_loop_groups[OF d, of "[]" ?sj "[]" p, OF _ _ assms this]
  show ?thesis
    by (simp add: pend combine_rules_selectors_def selectors_json_of_valid[OF assms]
        combine_spec_def combine_groups_def)
qed

subsection \<open>Worked examples\<close>

text \<open>
  C1. With the working set \<open>.a {color: red}\<close>, \<open>.b {color: red}\<close>, \<open>.c {color: blue}\<close>
  in that order, \<open>get_css\<close> with optimize true leaves exactly two rules: one with the
  selector \<open>.a,.b\<close> (\<open>.a\<close> before \<open>.b\<close>) carrying \<open>color: red\<close>, and the rule \<open>.c\<close>
  carrying \<open>color: blue\<close>; the output holds these two blocks. This holds whatever the
  prettify option and \<open>SCRIPT_DEBUG\<close> are.
\<close>

theorem combine_abc_example:
  "working_set abc_processor
     = [(''.a'', \<lparr>selector = ''.a'', declarations = [(''color'', ''red'')]\<rparr>),
        (''.b'', \<lparr>selector = ''.b'', declarations = [(''color'', ''red'')]\<rparr>),
        (''.c'', \<lparr>selector = ''.c'', declarations = [(''color'', ''blue'')]\<rparr>)]
   \<and> map_option (working_set \<circ> snd)
         (get_css debug \<lparr>optimize = Some True, prettify = pr\<rparr> abc_processor)
     = Some [(''.c'', \<lparr>selector = ''.c'', declarations = [(''color'', ''blue'')]\<rparr>),
             (''.a,.b'', \<lparr>selector = ''.a,.b'', declarations = [(''color'', ''red'')]\<rparr>)]
   \<and> map_option fst
         (get_css debug \<lparr>optimize = Some True, prettify = Some False\<rparr> abc_processor)
     = Some ''.c{color: blue;}.a,.b{color: red;}''"
  by (simp add: abc_processor_def eval_defs split: option.split)

text \<open>
  C2. With the store block-supports holding \<open>.wp-1 {margin: 0}\<close> and the store
  global-styles holding \<open>.wp-2 {margin: 0}\<close>, attached in that order, the rules are
  pulled store by store into the working set (\<open>.wp-1\<close> first), and
  \<open>get_css\<close> with optimize true and prettify false returns the single rule
  \<open>.wp-1,.wp-2{margin: 0;}\<close>.
\<close>

theorem two_stores_example:
  "css_rules (pull_stores two_stores_processor) = [(''.wp-1'', 0), (''.wp-2'', 1)]
   \<and> pull_stores two_stores_processor
       = add_rules (add_rules two_stores_processor (Rules [0])) (Rules [1])
   \<and> get_css debug \<lparr>optimize = Some True, prettify = Some False\<rparr> two_stores_processor
     = Some (''.wp-1,.wp-2{margin: 0;}'',
         \<lparr>heap = [\<lparr>selector = ''.wp-1'', declarations = [(''margin'', ''0'')]\<rparr>,
              \<lparr>selector = ''.wp-2'', declarations = [(''margin'', ''0'')]\<rparr>,
              \<lparr>selector = ''.wp-1,.wp-2'', declarations = [(''margin'', ''0'')]\<rparr>],
           stores = [(''block-supports'', \<lparr>name = ''block-supports'', rules = [0]\<rparr>),
                     (''global-styles'', \<lparr>name = ''global-styles'', rules = [1]\<rparr>)],
           css_rules = [(''.wp-1,.wp-2'', 2)]\<rparr>)"
  by (simp add: two_stores_processor_def eval_defs)

text \<open>
  C8. With optimize false the same working set is serialised as it stands: three
  blocks, \<open>.a\<close>, \<open>.b\<close>, \<open>.c\<close>, each with its own selector and declarations, in
  first-seen order.
\<close>

theorem no_optimize_abc_example:
  "map_option (working_set \<circ> snd)
         (get_css debug \<lparr>optimize = Some False, prettify = pr\<rparr> abc_processor)
     = Some [(''.a'', \<lparr>selector = ''.a'', declarations = [(''color'', ''red'')]\<rparr>),
             (''.b'', \<lparr>selector = ''.b'', declarations = [(''color'', ''red'')]\<rparr>),
             (''.c'', \<lparr>selector = ''.c'', declarations = [(''color'', ''blue'')]\<rparr>)]
   \<and> map_option fst
         (get_css debug \<lparr>optimize = Some False, prettify = Some False\<rparr> abc_processor)
     = Some ''.a{color: red;}.b{color: red;}.c{color: blue;}''
   \<and> map_option fst
         (get_css debug \<lparr>optimize = Some False, prettify = Some True\<rparr> abc_processor)
     = Some (''.a {'' @ newline @ tab @ ''color: red;'' @ newline @ ''}'' @ newline @
             ''.b {'' @ newline @ tab @ ''color: red;'' @ newline @ ''}'' @ newline @
             ''.c {'' @ newline @ tab @ ''color: blue;'' @ newline @ ''}'' @ newline)"
  by (simp add: abc_processor_def eval_defs split: option.split)

subsection \<open>Serialisation\<close>

lemma foldl_append_concat: "foldl (\<lambda>acc x. acc @ f x) a xs = a @ concat (map f xs)"
  by (induction xs arbitrary: a) auto

lemma build_css_working_set:
  "build_css p pretty =
     concat (map (\<lambda>(k, rule). rule_get_css rule pretty @ (if pretty then newline else []))
       (working_set p))"
proof -
  have "build_css p pretty
        = foldl (\<lambda>css x. css @ (case x of (k, r) \<Rightarrow>
             rule_get_css (heap p ! r) pretty @ (if pretty then newline else []))) [] (css_rules p)"
    by (simp add: build_css_def case_prod_unfold)
  also have "\<dots> = concat (map (\<lambda>(k, r).
             rule_get_css (heap p ! r) pretty @ (if pretty then newline else [])) (css_rules p))"
    by (simp add: foldl_append_concat)
  finally show ?thesis by (simp add: working_set_def comp_def case_prod_unfold)
qed

subsection \<open>add_rules keeps one rule per selector\<close>

lemma merge_declarations_map_of:
  "distinct (map fst b) \<Longrightarrow> map_of (merge_declarations a b) = map_of a ++ map_of b"
proof (induction b arbitrary: a)
  case Nil
  then show ?case by (simp add: merge_declarations_def)
next
  case (Cons x b)
  obtain k v where x: "x = (k, v)" by (cases x)
  have "map_of (merge_declarations a (x # b)) = map_of (merge_declarations (AList.update k v a) b)"
    by (simp add: merge_declarations_def x)
  also have "\<dots> = map_of (AList.update k v a) ++ map_of b"
    using Cons.prems by (intro Cons.IH) simp
  also have "\<dots> = map_of a ++ map_of (x # b)"
    using Cons.prems
    by (auto simp: x AList.update_conv' fun_eq_iff map_add_def map_of_eq_None_iff[symmetric]
        split: option.splits)
  finally show ?case .
qed

lemma merge_declarations_distinct:
  "distinct (map fst a) \<Longrightarrow> distinct (map fst (merge_declarations a b))"
  unfolding merge_declarations_def
  by (induction b arbitrary: a) (auto simp: AList.distinct_update)

lemma add_rule_present:
  assumes v: "valid_processor p" and e: "map_of (css_rules p) (selector (heap p ! r)) = Some e"
  shows "css_rules (add_rule p r) = css_rules p"
    and "working_set (add_rule p r)
         = map (\<lambda>(k, rule). if k = selector (heap p ! r)
                  then (k, add_declarations rule (declarations (heap p ! r))) else (k, rule))
             (working_set p)"
    and "valid_processor (add_rule p r)"
proof -
  let ?sel = "selector (heap p ! r)"
  let ?x = "add_declarations (heap p ! e) (declarations (heap p ! r))"
  have p': "add_rule p r = p\<lparr>heap := (heap p)[e := ?x]\<rparr>"
    using e by (simp add: add_rule_def)
  show "css_rules (add_rule p r) = css_rules p" by (simp add: p')
  have mem: "(?sel, e) \<in> set (css_rules p)" using e by (rule map_of_SomeD)
  have elt: "e < length (heap p)"
    using v mem by (auto simp: valid_processor_def list_all_iff)
  have uniq: "r' = e \<longleftrightarrow> k = ?sel" if kr: "(k, r') \<in> set (css_rules p)" for k r'
  proof
    assume "r' = e"
    then have "selector (heap p ! e) = k" "selector (heap p ! e) = ?sel"
      using v mem kr by (auto simp: valid_processor_def list_all_iff)
    then show "k = ?sel" by simp
  next
    assume "k = ?sel"
    then show "r' = e"
      using v mem kr by (auto simp: valid_processor_def dest: eq_key_imp_eq_value)
  qed
  show "working_set (add_rule p r)
         = map (\<lambda>(k, rule). if k = ?sel then (k, add_declarations rule (declarations (heap p ! r)))
                  else (k, rule)) (working_set p)"
  proof -
    have "working_set (add_rule p r) = map (\<lambda>(k, ra). (k, (heap p)[e := ?x] ! ra)) (css_rules p)"
      by (simp add: working_set_def p')
    also have "\<dots> = map ((\<lambda>(k, rule). if k = ?sel
                 then (k, add_declarations rule (declarations (heap p ! r)))
                 else (k, rule)) \<circ> (\<lambda>(k, r). (k, heap p ! r))) (css_rules p)"
    proof (rule map_cong[OF refl])
      fix x assume x: "x \<in> set (css_rules p)"
      obtain k r' where kr: "x = (k, r')" by (cases x)
      show "(case x of (k, ra) \<Rightarrow> (k, (heap p)[e := ?x] ! ra))
          = ((\<lambda>(k, rule). if k = ?sel then (k, add_declarations rule (declarations (heap p ! r)))
               else (k, rule)) \<circ> (\<lambda>(k, r). (k, heap p ! r))) x"
        using uniq[of k r'] x kr elt by (auto simp: nth_list_update)
    qed
    finally show ?thesis by (simp add: working_set_def)
  qed
  have sel: "selector ((heap p)[e := ?x] ! b) = selector (heap p ! b)" for b
    using elt by (cases "b = e") (simp_all add: add_declarations_def)
  show "valid_processor (add_rule p r)"
    using v unfolding p'
    by (auto simp: valid_processor_def list_all_iff sel)
qed

lemma add_rule_fresh:
  assumes v: "valid_processor p" and r: "r < length (heap p)"
    and e: "map_of (css_rules p) (selector (heap p ! r)) = None"
  shows "css_rules (add_rule p r) = css_rules p @ [(selector (heap p ! r), r)]"
    and "heap (add_rule p r) = heap p"
    and "valid_processor (add_rule p r)"
proof -
  have fresh: "selector (heap p ! r) \<notin> fst ` set (css_rules p)"
    using e by (simp add: map_of_eq_None_iff)
  then show 1: "css_rules (add_rule p r) = css_rules p @ [(selector (heap p ! r), r)]"
    using e by (simp add: add_rule_def update_fresh)
  show 2: "heap (add_rule p r) = heap p" using e by (simp add: add_rule_def)
  show "valid_processor (add_rule p r)"
    using v r fresh unfolding valid_processor_def 1 2 by auto
qed

lemma add_rule_valid:
  "valid_processor p \<Longrightarrow> r < length (heap p) \<Longrightarrow> valid_processor (add_rule p r)"
  by (cases "map_of (css_rules p) (selector (heap p ! r))")
     (auto intro: add_rule_fresh(3) add_rule_present(3))

lemma add_rule_length: "length (heap (add_rule p r)) = length (heap p)"
  by (simp add: add_rule_def Let_def split: option.splits)

lemma foldl_add_rule_valid:
  "valid_processor p \<Longrightarrow> list_all (\<lambda>r. r < length (heap p)) rs \<Longrightarrow>
   valid_processor (foldl add_rule p rs) \<and> length (heap (foldl add_rule p rs)) = length (heap p)"
proof (induction rs arbitrary: p)
  case Nil
  then show ?case by simp
next
  case (Cons r rs)
  have "valid_processor (add_rule p r)" using Cons.prems by (simp add: add_rule_valid)
  moreover have "list_all (\<lambda>r'. r' < length (heap (add_rule p r))) rs"
    using Cons.prems by (simp add: add_rule_length)
  ultimately show ?case using Cons.IH[of "add_rule p r"] by (simp add: add_rule_length)
qed

lemma add_rule_stores: "stores (add_rule p r) = stores p"
  by (simp add: add_rule_def Let_def split: option.splits)

lemma foldl_add_rule_stores: "stores (foldl add_rule p rs) = stores p"
  by (induction rs arbitrary: p) (simp_all add: add_rule_stores)

lemma pull_stores_aux:
  "valid_processor q \<Longrightarrow> list_all (\<lambda>s. list_all (\<lambda>r. r < length (heap q)) (rules s)) ss \<Longrightarrow>
   valid_processor (foldl (\<lambda>q store. add_rules q (Rules (get_all_rules store))) q ss)
   \<and> length (heap (foldl (\<lambda>q store. add_rules q (Rules (get_all_rules store))) q ss))
       = length (heap q)
   \<and> stores (foldl (\<lambda>q store. add_rules q (Rules (get_all_rules store))) q ss) = stores q"
proof (induction ss arbitrary: q)
  case Nil
  then show ?case by simp
next
  case (Cons s ss)
  let ?q = "add_rules q (Rules (get_all_rules s))"
  have q: "valid_processor ?q" "length (heap ?q) = length (heap q)" "stores ?q = stores q"
    using Cons.prems foldl_add_rule_valid[of q "rules s"]
    by (simp_all add: add_rules_def get_all_rules_def foldl_add_rule_stores)
  have "list_all (\<lambda>s. list_all (\<lambda>r. r < length (heap ?q)) (rules s)) ss"
    using Cons.prems(2) q(2) by simp
  from Cons.IH[OF q(1) this] show ?case using q by simp
qed

lemma pull_stores_valid:
  assumes "valid_processor p" and "valid_stores p"
  shows "valid_processor (pull_stores p)" and "stores (pull_stores p) = stores p"
    and "valid_stores (pull_stores p)"
proof -
  have "list_all (\<lambda>s. list_all (\<lambda>r. r < length (heap p)) (rules s)) (map snd (stores p))"
    using assms(2) by (auto simp: valid_stores_def list_all_iff)
  from pull_stores_aux[OF assms(1) this]
  show "valid_processor (pull_stores p)" and "stores (pull_stores p) = stores p"
    and "valid_stores (pull_stores p)"
    using assms(2) by (simp_all add: pull_stores_def valid_stores_def)
qed

subsection \<open>add_store keeps one store per name\<close>

lemma stores_foldl_add_store:
  "distinct (map fst (stores p)) \<Longrightarrow> distinct (map fst (stores (foldl add_store p ss)))"
  by (induction ss arbitrary: p) (auto simp: add_store_def AList.distinct_update)

lemma update_present_keys:
  "k \<in> fst ` set al \<Longrightarrow> map fst (AList.update k v al) = map fst al"
  by (induction al) auto

text \<open>
  C9. \<open>add_store\<close> keeps one store per name: after any sequence of \<open>add_store\<close>
  calls on a new processor the names in the store map are pairwise different; a single
  call keeps them so, and files the store under its name. When the name is already
  registered the new store takes the place of the old one (same names, same order);
  otherwise it is appended. Stores under other names are untouched.
\<close>

theorem add_store_one_store_per_name:
  "distinct (map fst (stores (foldl add_store (new_processor objects) ss)))
   \<and> (distinct (map fst (stores p)) \<longrightarrow> distinct (map fst (stores (add_store p s))))
   \<and> map_of (stores (add_store p s)) (name s) = Some s
   \<and> (name s \<in> fst ` set (stores p) \<longrightarrow>
        map fst (stores (add_store p s)) = map fst (stores p))
   \<and> (name s' \<notin> fst ` set (stores p) \<longrightarrow>
        stores (add_store p s') = stores p @ [(name s', s')])
   \<and> (n \<noteq> name s \<longrightarrow> map_of (stores (add_store p s)) n = map_of (stores p) n)"
proof -
  have "distinct (map fst (stores (foldl add_store (new_processor objects) ss)))"
    by (rule stores_foldl_add_store) (simp add: new_processor_def)
  then show ?thesis
    by (simp add: add_store_def AList.distinct_update AList.update_conv' update_present_keys update_fresh)
qed

theorem add_store_one_store_per_name_witness:
  "distinct (map fst (stores two_stores_processor))
   \<and> ''global-styles'' \<in> fst ` set (stores two_stores_processor)
   \<and> ''other'' \<notin> fst ` set (stores two_stores_processor)
   \<and> ''block-supports'' \<noteq> ''global-styles''
   \<and> stores (add_store two_stores_processor \<lparr>name = ''global-styles'', rules = [0, 1]\<rparr>)
       = [(''block-supports'', \<lparr>name = ''block-supports'', rules = [0]\<rparr>),
          (''global-styles'', \<lparr>name = ''global-styles'', rules = [0, 1]\<rparr>)]
   \<and> distinct (map fst (stores
         (add_store two_stores_processor \<lparr>name = ''global-styles'', rules = [0, 1]\<rparr>)))
   \<and> map_of (stores (add_store two_stores_processor \<lparr>name = ''global-styles'', rules = [0, 1]\<rparr>))
         ''global-styles'' = Some \<lparr>name = ''global-styles'', rules = [0, 1]\<rparr>
   \<and> map_of (stores (add_store two_stores_processor \<lparr>name = ''global-styles'', rules = [0, 1]\<rparr>))
         ''block-supports'' = map_of (stores two_stores_processor) ''block-supports''
   \<and> stores (add_store two_stores_processor \<lparr>name = ''other'', rules = []\<rparr>)
       = stores two_stores_processor @ [(''other'', \<lparr>name = ''other'', rules = []\<rparr>)]"
  using add_store_one_store_per_name
    [of "[]" "[]" two_stores_processor "\<lparr>name = ''global-styles'', rules = [0, 1]\<rparr>"
        "\<lparr>name = ''other'', rules = []\<rparr>" "''block-supports''"]
  by (simp add: two_stores_processor_def eval_defs)

subsection \<open>The prettify option\<close>

lemma strip_ws_append: "strip_ws (a @ b) = strip_ws a @ strip_ws b"
  by (simp add: strip_ws_def)

lemma strip_ws_concat: "strip_ws (concat xs) = concat (map strip_ws xs)"
  by (induction xs) (simp_all add: strip_ws_append, simp add: strip_ws_def)

lemma strip_ws_declarations:
  "strip_ws (get_declarations_string ds True) = strip_ws (get_declarations_string ds False)"
  by (induction ds) (auto simp: get_declarations_string_def strip_ws_def newline_def tab_def)

lemma strip_ws_rule:
  "strip_ws (rule_get_css rule True) = strip_ws (rule_get_css rule False)"
  using strip_ws_declarations[of "declarations rule"]
  by (simp add: rule_get_css_def strip_ws_append) (simp add: strip_ws_def newline_def)

lemma strip_ws_build_css:
  "strip_ws (build_css p True) = strip_ws (build_css p False)"
proof -
  have nl: "strip_ws newline = []" by (simp add: strip_ws_def newline_def)
  have eq: "(strip_ws \<circ> (\<lambda>(k, rule). rule_get_css rule True @ newline))
      = (strip_ws \<circ> (\<lambda>(k, rule). rule_get_css rule False))"
    by (rule ext) (simp add: strip_ws_append strip_ws_rule nl case_prod_unfold)
  have "strip_ws (build_css p True)
        = concat (map (strip_ws \<circ> (\<lambda>(k, rule). rule_get_css rule True @ newline)) (working_set p))"
    by (simp add: build_css_working_set strip_ws_concat)
  also have "\<dots> = concat (map (strip_ws \<circ> (\<lambda>(k, rule). rule_get_css rule False)) (working_set p))"
    by (simp only: eq)
  also have "\<dots> = strip_ws (build_css p False)"
    by (simp add: build_css_working_set strip_ws_concat)
  finally show ?thesis .
qed

text \<open>
  C7. The prettify option changes blanks, tabs and newlines only: whatever the
  processor, the optimize option and \<open>SCRIPT_DEBUG\<close>, the run with prettify true and
  the run with prettify false leave the same processor behind (the same rules under the
  same selectors, in the same order), and their outputs are equal once blanks, tabs and
  newlines are taken out.
\<close>

theorem prettify_changes_whitespace_only:
  "map_option snd (get_css d1 \<lparr>optimize = opt, prettify = Some True\<rparr> p)
     = map_option snd (get_css d2 \<lparr>optimize = opt, prettify = Some False\<rparr> p)
   \<and> map_option (strip_ws \<circ> fst) (get_css d1 \<lparr>optimize = opt, prettify = Some True\<rparr> p)
     = map_option (strip_ws \<circ> fst) (get_css d2 \<lparr>optimize = opt, prettify = Some False\<rparr> p)"
  by (cases opt) (auto simp: get_css_def wp_parse_args_def strip_ws_build_css Let_def split: option.splits)

lemma get_css_returns:
  assumes "valid_processor p" and "valid_stores p"
  shows "\<exists>p'. get_css d args p = Some (build_css p' (snd (wp_parse_args args (True, d))), p')
              \<and> valid_processor p'"
proof -
  obtain opt pretty where args: "wp_parse_args args (True, d) = (opt, pretty)"
    by (cases "wp_parse_args args (True, d)")
  have vq: "valid_processor (pull_stores p)" using assms by (rule pull_stores_valid(1))
  show ?thesis
  proof (cases opt)
    case True
    from combine_refines[OF vq] obtain p' where
      "combine_rules_selectors (pull_stores p) = Some p'" "valid_processor p'" by blast
    then show ?thesis using True by (auto simp: get_css_def args Let_def)
  next
    case False
    then show ?thesis using vq by (auto simp: get_css_def args Let_def)
  qed
qed

text \<open>
  C6, as the code has it. On a well-formed processor \<open>get_css\<close> returns, and its
  output is the concatenation, over the final working set, of one contribution per rule.
  A rule without declarations never shows its selector: it contributes nothing when
  prettify is false and a single newline when prettify is true, since the newline is
  appended after every rule, empty or not.
\<close>

theorem get_css_empty_rule_contribution:
  assumes "valid_processor p" and "valid_stores p"
  shows "\<exists>css p'. get_css d args p = Some (css, p')
           \<and> css = concat (map (\<lambda>(k, rule).
                   if declarations rule = []
                   then (if snd (wp_parse_args args (True, d)) then newline else [])
                   else rule_get_css rule (snd (wp_parse_args args (True, d)))
                        @ (if snd (wp_parse_args args (True, d)) then newline else []))
                 (working_set p'))"
proof -
  let ?pretty = "snd (wp_parse_args args (True, d))"
  from get_css_returns[OF assms, of d args]
  obtain p' where run: "get_css d args p = Some (build_css p' ?pretty, p')" by blast
  have "build_css p' ?pretty
        = concat (map (\<lambda>(k, rule). rule_get_css rule ?pretty @ (if ?pretty then newline else []))
            (working_set p'))"
    by (rule build_css_working_set)
  also have "\<dots> = concat (map (\<lambda>(k, rule).
           if declarations rule = [] then (if ?pretty then newline else [])
           else rule_get_css rule ?pretty @ (if ?pretty then newline else []))
         (working_set p'))"
    by (intro arg_cong[where f = concat] map_cong) (auto simp: rule_get_css_def)
  finally show ?thesis using run by blast
qed

theorem get_css_empty_rule_contribution_witness:
  "valid_processor empty_rule_processor \<and> valid_stores empty_rule_processor
   \<and> (\<exists>css p'. get_css False \<lparr>optimize = Some True, prettify = Some True\<rparr> empty_rule_processor
                  = Some (css, p')
         \<and> css = concat (map (\<lambda>(k, rule).
                   if declarations rule = []
                   then (if snd (wp_parse_args \<lparr>optimize = Some True, prettify = Some True\<rparr>
                                   (True, False)) then newline else [])
                   else rule_get_css rule
                          (snd (wp_parse_args \<lparr>optimize = Some True, prettify = Some True\<rparr>
                                  (True, False)))
                        @ (if snd (wp_parse_args \<lparr>optimize = Some True, prettify = Some True\<rparr>
                                     (True, False)) then newline else []))
                 (working_set p')))
   \<and> get_css False \<lparr>optimize = Some True, prettify = Some True\<rparr> empty_rule_processor
       = Some (newline, empty_rule_processor)"
proof -
  have v: "valid_processor empty_rule_processor"
    by (simp add: empty_rule_processor_def valid_processor_def eval_defs)
  have vs: "valid_stores empty_rule_processor"
    by (simp add: empty_rule_processor_def valid_stores_def eval_defs)
  have run: "get_css False \<lparr>optimize = Some True, prettify = Some True\<rparr> empty_rule_processor
     = Some (newline, empty_rule_processor)"
    by (simp add: empty_rule_processor_def eval_defs)
  from get_css_empty_rule_contribution
    [OF v vs, of False "\<lparr>optimize = Some True, prettify = Some True\<rparr>"] v vs run
  show ?thesis by (intro conjI)
qed

text \<open>
  C6 as stated fails: with prettify true, the processor holding the single rule \<open>.a\<close>
  without declarations returns a newline, not the empty string.
\<close>

theorem empty_rule_pretty_newline:
  "get_css False \<lparr>optimize = Some False, prettify = Some True\<rparr> empty_rule_processor
     = Some ([CHR 0x0A], empty_rule_processor)
   \<and> working_set empty_rule_processor = [(''.a'', \<lparr>selector = ''.a'', declarations = []\<rparr>)]"
  by (simp add: empty_rule_processor_def eval_defs new_processor_def)

subsection \<open>The groups of the combine pass\<close>

lemma groups_from_jsons:
  "groups_from sj seen rest = map (array_keys sj) (group_jsons sj seen rest)"
  by (induction sj seen rest rule: groups_from.induct) simp_all

lemma set_group_jsons:
  "set (group_jsons sj seen rest)
     = {j \<in> snd ` set rest. j \<notin> set seen \<and> 2 \<le> length (array_keys sj j)}"
proof (induction sj seen rest rule: group_jsons.induct)
  case (1 sj seen)
  then show ?case by simp
next
  case (2 sj seen k j rest)
  show ?case
  proof (cases "j \<in> set seen \<or> length (array_keys sj j) \<le> 1")
    case True
    then have "set (group_jsons sj seen ((k, j) # rest))
             = {j' \<in> snd ` set rest. j' \<notin> set (j # seen) \<and> 2 \<le> length (array_keys sj j')}"
      using 2 by simp
    also have "\<dots> = {j' \<in> snd ` set ((k, j) # rest). j' \<notin> set seen \<and> 2 \<le> length (array_keys sj j')}"
      using True by auto
    finally show ?thesis .
  next
    case False
    then have "set (group_jsons sj seen ((k, j) # rest))
             = insert j {j' \<in> snd ` set rest. j' \<notin> set (j # seen) \<and> 2 \<le> length (array_keys sj j')}"
      using 2 by simp
    also have "\<dots> = {j' \<in> snd ` set ((k, j) # rest). j' \<notin> set seen \<and> 2 \<le> length (array_keys sj j')}"
      using False by auto
    finally show ?thesis .
  qed
qed

lemma distinct_group_jsons: "distinct (group_jsons sj seen rest)"
  by (induction sj seen rest rule: group_jsons.induct) (simp_all add: set_group_jsons)

subsection \<open>What the combine pass keeps true\<close>

lemma combine_inv_distinct: "combine_inv ws0 P cr \<Longrightarrow> distinct (map fst cr)"
  by (simp add: combine_inv_def)

lemma combine_inv_keep:
  assumes "combine_inv ws0 P cr" "(k, rule) \<in> set ws0" "rule_json rule \<notin> P"
  shows "k \<in> fst ` set cr"
proof -
  from assms(1) have "\<forall>k rule. (k, rule) \<in> set ws0 \<and> rule_json rule \<notin> P \<longrightarrow> k \<in> fst ` set cr"
    unfolding combine_inv_def by (elim conjE)
  then have "(k, rule) \<in> set ws0 \<and> rule_json rule \<notin> P \<longrightarrow> k \<in> fst ` set cr"
    by (elim allE)
  then show ?thesis using assms(2,3) by simp
qed

lemma combine_inv_kinds:
  assumes "combine_inv ws0 P cr" "(k, rule) \<in> set cr"
  shows "(map_of ws0 k = Some rule \<and> rule_json rule \<notin> P
             \<and> k \<notin> (\<lambda>j. implode '','' (array_keys (encodings ws0) j)) ` P)
          \<or> (selector rule = k \<and> rule_json rule \<in> P
             \<and> (\<forall>k' rule'. (k', rule') \<in> set cr \<and> rule_json rule' = rule_json rule \<longrightarrow> k' = k))"
proof -
  from assms(1) have "\<forall>k rule. (k, rule) \<in> set cr \<longrightarrow>
          (map_of ws0 k = Some rule \<and> rule_json rule \<notin> P
             \<and> k \<notin> (\<lambda>j. implode '','' (array_keys (encodings ws0) j)) ` P)
          \<or> (selector rule = k \<and> rule_json rule \<in> P
             \<and> (\<forall>k' rule'. (k', rule') \<in> set cr \<and> rule_json rule' = rule_json rule \<longrightarrow> k' = k))"
    unfolding combine_inv_def by (elim conjE)
  then have "(k, rule) \<in> set cr \<longrightarrow>
          (map_of ws0 k = Some rule \<and> rule_json rule \<notin> P
             \<and> k \<notin> (\<lambda>j. implode '','' (array_keys (encodings ws0) j)) ` P)
          \<or> (selector rule = k \<and> rule_json rule \<in> P
             \<and> (\<forall>k' rule'. (k', rule') \<in> set cr \<and> rule_json rule' = rule_json rule \<longrightarrow> k' = k))"
    by (elim allE)
  then show ?thesis using assms(2) by simp
qed

lemma array_keys_encodings:
  "k \<in> set (array_keys (encodings ws) j) \<longleftrightarrow> (\<exists>rule. (k, rule) \<in> set ws \<and> rule_json rule = j)"
  by (auto simp: mem_array_keys encodings_def)

lemma array_keys_encodings_map_of:
  assumes "distinct (map fst ws)" and "map_of ws k = Some rule"
  shows "k \<in> set (array_keys (encodings ws) j) \<longleftrightarrow> rule_json rule = j"
proof -
  have mem: "(k, rule) \<in> set ws" using assms(2) by (rule map_of_SomeD)
  have uniq: "rule' = rule" if "(k, rule') \<in> set ws" for rule'
    using assms that by simp
  show ?thesis
    unfolding array_keys_encodings
  proof
    assume "\<exists>rule'. (k, rule') \<in> set ws \<and> rule_json rule' = j"
    then obtain rule' where r: "(k, rule') \<in> set ws" "rule_json rule' = j" by blast
    from uniq[OF r(1)] r(2) show "rule_json rule = j" by simp
  next
    assume "rule_json rule = j"
    with mem show "\<exists>rule'. (k, rule') \<in> set ws \<and> rule_json rule' = j" by blast
  qed
qed

lemma map_of_in_keys: "k \<in> fst ` set al \<Longrightarrow> \<exists>v. map_of al k = Some v"
  by (cases "map_of al k") (simp_all add: map_of_eq_None_iff)

lemma set_update_distinct:
  "distinct (map fst al) \<Longrightarrow>
   set (AList.update k v al) = insert (k, v) {x \<in> set al. fst x \<noteq> k}"
  by (induction al) (auto simp: image_iff)

lemma combine_invI:
  assumes "distinct (map fst cr)"
    and "\<And>k rule. (k, rule) \<in> set ws0 \<Longrightarrow> rule_json rule \<notin> P \<Longrightarrow> k \<in> fst ` set cr"
    and "\<And>k rule. (k, rule) \<in> set cr \<Longrightarrow>
          (map_of ws0 k = Some rule \<and> rule_json rule \<notin> P
             \<and> k \<notin> (\<lambda>j. implode '','' (array_keys (encodings ws0) j)) ` P)
          \<or> (selector rule = k \<and> rule_json rule \<in> P
             \<and> (\<forall>k' rule'. (k', rule') \<in> set cr \<and> rule_json rule' = rule_json rule \<longrightarrow> k' = k))"
  shows "combine_inv ws0 P cr"
  unfolding combine_inv_def
proof (intro conjI allI impI)
  show "distinct (map fst cr)" by (rule assms(1))
next
  fix k rule assume "(k, rule) \<in> set ws0 \<and> rule_json rule \<notin> P"
  then show "k \<in> fst ` set cr" using assms(2)[of k rule] by simp
next
  fix k rule assume "(k, rule) \<in> set cr"
  then show "(map_of ws0 k = Some rule \<and> rule_json rule \<notin> P
             \<and> k \<notin> (\<lambda>j. implode '','' (array_keys (encodings ws0) j)) ` P)
          \<or> (selector rule = k \<and> rule_json rule \<in> P
             \<and> (\<forall>k' rule'. (k', rule') \<in> set cr \<and> rule_json rule' = rule_json rule \<longrightarrow> k' = k))"
    by (rule assms(3))
qed

lemma combine_inv_step:
  assumes d0: "distinct (map fst ws0)"
    and inv: "combine_inv ws0 P cr"
    and jP: "j \<notin> P"
    and multi: "2 \<le> length (array_keys (encodings ws0) j)"
  shows "combine_inv ws0 (insert j P) (group_step cr (array_keys (encodings ws0) j))"
proof -
  define G where "G = array_keys (encodings ws0) j"
  define J where "J = (\<lambda>j. implode '','' (array_keys (encodings ws0) j))"
  define kG where "kG = implode '','' G"
  define new where "new = snd (combined_rule cr G)"
  define F where "F = filter (\<lambda>(k, rule). k \<notin> set G) cr"
  define cr' where "cr' = group_step cr G"
  have kGJ: "kG = J j" by (simp add: kG_def J_def G_def)
  have dcr: "distinct (map fst cr)" using inv by (rule combine_inv_distinct)
  have keep: "k \<in> fst ` set cr" if "(k, rule) \<in> set ws0" "rule_json rule \<notin> P" for k rule
    using inv that by (rule combine_inv_keep)
  have kinds: "(map_of ws0 k = Some rule \<and> rule_json rule \<notin> P \<and> k \<notin> J ` P)
          \<or> (selector rule = k \<and> rule_json rule \<in> P
             \<and> (\<forall>k' rule'. (k', rule') \<in> set cr \<and> rule_json rule' = rule_json rule \<longrightarrow> k' = k))"
    if "(k, rule) \<in> set cr" for k rule
    unfolding J_def using inv that by (rule combine_inv_kinds)
  have memG: "k \<in> set G \<longleftrightarrow> rule_json rule = j" if "map_of ws0 k = Some rule" for k rule
    unfolding G_def using d0 that by (rule array_keys_encodings_map_of)
  \<comment> \<open>the first member of the group and the rule it stands for\<close>
  have "G \<noteq> []" using multi by (auto simp: G_def)
  then have hdG: "hd G \<in> set G" by simp
  then obtain rule0 where rule0: "(hd G, rule0) \<in> set ws0" "rule_json rule0 = j"
    unfolding G_def array_keys_encodings by blast
  then have "hd G \<in> fst ` set cr" using keep jP by blast
  from map_of_in_keys[OF this] obtain ruleH where ruleH: "map_of cr (hd G) = Some ruleH" ..
  then have ruleH_mem: "(hd G, ruleH) \<in> set cr" by (rule map_of_SomeD)
  have new_sel: "selector new = kG"
    by (simp add: new_def kG_def combined_rule_def new_css_rule_def)
  have new_json: "rule_json new = rule_json ruleH"
    using ruleH
    by (simp add: new_def combined_rule_def declarations_of_def rule_json_def new_css_rule_def)
  have H_first: "rule_json ruleH = j" if "rule_json ruleH \<notin> P"
  proof -
    from kinds[OF ruleH_mem] that have "map_of ws0 (hd G) = Some ruleH" by blast
    then show ?thesis using memG hdG by blast
  qed
  \<comment> \<open>the entries after the step\<close>
  have dF: "distinct (map fst F)" using dcr by (simp add: F_def distinct_map_filter)
  have cr': "cr' = AList.update kG new F"
    by (simp add: cr'_def group_step_def F_def new_def kG_def combined_rule_def)
  have set_cr': "set cr' = insert (kG, new) {x \<in> set F. fst x \<noteq> kG}"
    unfolding cr' using dF by (rule set_update_distinct)
  have old: "(k, rule) \<in> set cr \<and> k \<notin> set G \<and> k \<noteq> kG"
    if "(k, rule) \<in> set cr'" "\<not> (k = kG \<and> rule = new)" for k rule
    using that unfolding set_cr' F_def by auto
  have old_json: "rule_json rule \<noteq> rule_json ruleH"
    if m: "(k, rule) \<in> set cr" and nG: "k \<notin> set G" for k rule
  proof
    assume eq: "rule_json rule = rule_json ruleH"
    from kinds[OF m] show False
    proof
      assume a: "map_of ws0 k = Some rule \<and> rule_json rule \<notin> P \<and> k \<notin> J ` P"
      then have "rule_json ruleH = j" using eq H_first by simp
      then have "k \<in> set G" using a eq memG by simp
      then show False using nG by simp
    next
      assume "selector rule = k \<and> rule_json rule \<in> P
             \<and> (\<forall>k' rule'. (k', rule') \<in> set cr \<and> rule_json rule' = rule_json rule \<longrightarrow> k' = k)"
      then have u: "\<And>k' rule'. (k', rule') \<in> set cr \<Longrightarrow> rule_json rule' = rule_json rule
                      \<Longrightarrow> k' = k"
        by blast
      have "hd G = k" by (rule u[OF ruleH_mem eq[symmetric]])
      then show False using hdG nG by simp
    qed
  qed
  have 3: "(map_of ws0 k = Some rule \<and> rule_json rule \<notin> insert j P \<and> k \<notin> J ` insert j P)
          \<or> (selector rule = k \<and> rule_json rule \<in> insert j P
             \<and> (\<forall>k' rule'. (k', rule') \<in> set cr' \<and> rule_json rule' = rule_json rule \<longrightarrow> k' = k))"
    if m: "(k, rule) \<in> set cr'" for k rule
  proof (cases "k = kG \<and> rule = new")
    case True
    have in_P: "rule_json new \<in> insert j P" using new_json H_first by auto
    have "k' = kG"
      if "(k', rule') \<in> set cr'" "rule_json rule' = rule_json new" for k' rule'
    proof (rule ccontr)
      assume "k' \<noteq> kG"
      then have "(k', rule') \<in> set cr \<and> k' \<notin> set G" using old that(1) by blast
      then show False using old_json that(2) new_json by auto
    qed
    then have "\<forall>k' rule'. (k', rule') \<in> set cr' \<and> rule_json rule' = rule_json new \<longrightarrow> k' = kG"
      by blast
    then show ?thesis using True new_sel in_P by simp
  next
    case False
    from old[OF m False] have o: "(k, rule) \<in> set cr" "k \<notin> set G" "k \<noteq> kG" by auto
    from kinds[OF o(1)] show ?thesis
    proof
      assume a: "map_of ws0 k = Some rule \<and> rule_json rule \<notin> P \<and> k \<notin> J ` P"
      then have "rule_json rule \<noteq> j" using memG o(2) by blast
      moreover have "k \<notin> J ` insert j P" using a o(3) kGJ by simp
      ultimately show ?thesis using a by simp
    next
      assume b: "selector rule = k \<and> rule_json rule \<in> P
           \<and> (\<forall>k' rule'. (k', rule') \<in> set cr \<and> rule_json rule' = rule_json rule \<longrightarrow> k' = k)"
      have "k' = k" if "(k', rule') \<in> set cr'" "rule_json rule' = rule_json rule" for k' rule'
      proof (cases "k' = kG \<and> rule' = new")
        case True
        then have "rule_json rule = rule_json ruleH" using that(2) new_json by simp
        then show ?thesis using old_json[OF o(1) o(2)] by simp
      next
        case False
        then have "(k', rule') \<in> set cr" using old that(1) by blast
        then show ?thesis using b that(2) by blast
      qed
      then have "\<forall>k' rule'. (k', rule') \<in> set cr' \<and> rule_json rule' = rule_json rule \<longrightarrow> k' = k"
        by blast
      then show ?thesis using b by simp
    qed
  qed
  have "combine_inv ws0 (insert j P) cr'"
  proof (rule combine_invI)
    show "distinct (map fst cr')" unfolding cr' using dF by (simp add: AList.distinct_update)
  next
    fix k rule assume m: "(k, rule) \<in> set ws0" and nP: "rule_json rule \<notin> insert j P"
    have "k \<in> fst ` set cr" using keep m nP by blast
    moreover have "map_of ws0 k = Some rule" using d0 m by simp
    then have "k \<notin> set G" using memG nP by blast
    ultimately have "k \<in> fst ` set F" by (auto simp: image_iff F_def)
    then show "k \<in> fst ` set cr'" unfolding cr' by (simp add: AList.dom_update)
  next
    fix k rule assume m: "(k, rule) \<in> set cr'"
    from 3[OF m]
    show "(map_of ws0 k = Some rule \<and> rule_json rule \<notin> insert j P
             \<and> k \<notin> (\<lambda>j. implode '','' (array_keys (encodings ws0) j)) ` insert j P)
          \<or> (selector rule = k \<and> rule_json rule \<in> insert j P
             \<and> (\<forall>k' rule'. (k', rule') \<in> set cr' \<and> rule_json rule' = rule_json rule \<longrightarrow> k' = k))"
      unfolding J_def .
  qed
  then show ?thesis by (simp add: cr'_def G_def)
qed

lemma combine_inv_init:
  assumes "distinct (map fst ws0)"
  shows "combine_inv ws0 {} ws0"
proof (rule combine_invI)
  show "distinct (map fst ws0)" by (rule assms)
next
  fix k rule assume "(k, rule) \<in> set ws0"
  then show "k \<in> fst ` set ws0" by (simp add: rev_image_eqI)
next
  fix k rule assume "(k, rule) \<in> set ws0"
  then have "map_of ws0 k = Some rule" using assms by simp
  then show "(map_of ws0 k = Some rule \<and> rule_json rule \<notin> {}
             \<and> k \<notin> (\<lambda>j. implode '','' (array_keys (encodings ws0) j)) ` {})
          \<or> (selector rule = k \<and> rule_json rule \<in> {}
             \<and> (\<forall>k' rule'. (k', rule') \<in> set ws0 \<and> rule_json rule' = rule_json rule \<longrightarrow> k' = k))"
    by simp
qed

lemma combine_inv_fold:
  assumes d0: "distinct (map fst ws0)"
  shows "combine_inv ws0 P cr \<Longrightarrow> distinct js \<Longrightarrow> set js \<inter> P = {} \<Longrightarrow>
         list_all (\<lambda>j. 2 \<le> length (array_keys (encodings ws0) j)) js \<Longrightarrow>
         combine_inv ws0 (P \<union> set js)
           (foldl group_step cr (map (array_keys (encodings ws0)) js))"
proof (induction js arbitrary: P cr)
  case Nil
  then show ?case by simp
next
  case (Cons j js)
  have jP: "j \<notin> P" using Cons.prems(3) by auto
  have multi: "2 \<le> length (array_keys (encodings ws0) j)" using Cons.prems(4) by simp
  have step: "combine_inv ws0 (insert j P) (group_step cr (array_keys (encodings ws0) j))"
    using d0 Cons.prems(1) jP multi by (rule combine_inv_step)
  have "combine_inv ws0 (insert j P \<union> set js)
           (foldl group_step (group_step cr (array_keys (encodings ws0) j))
              (map (array_keys (encodings ws0)) js))"
    using step Cons.prems(2,3,4) by (intro Cons.IH) auto
  then show ?case by simp
qed

lemma multi_in_encodings:
  "2 \<le> length (array_keys sj j) \<Longrightarrow> j \<in> snd ` set sj"
proof -
  assume "2 \<le> length (array_keys sj j)"
  then have "array_keys sj j \<noteq> []" by auto
  then have "hd (array_keys sj j) \<in> set (array_keys sj j)" by simp
  then obtain k where "k \<in> set (array_keys sj j)" ..
  then have "(k, j) \<in> set sj" by (simp add: mem_array_keys)
  then show ?thesis by force
qed

lemma set_combine_jsons:
  "set (group_jsons sj [] sj) = {j. 2 \<le> length (array_keys sj j)}"
  using multi_in_encodings[of sj] by (auto simp: set_group_jsons)

lemma combine_spec_inv:
  assumes "distinct (map fst ws0)"
  shows "combine_inv ws0 {j. 2 \<le> length (array_keys (encodings ws0) j)} (combine_spec ws0)"
proof -
  let ?sj = "encodings ws0"
  let ?js = "group_jsons ?sj [] ?sj"
  have "combine_inv ws0 ({} \<union> set ?js) (foldl group_step ws0 (map (array_keys ?sj) ?js))"
    using assms
  proof (rule combine_inv_fold)
    show "combine_inv ws0 {} ws0" using assms by (rule combine_inv_init)
    show "distinct ?js" by (rule distinct_group_jsons)
    show "set ?js \<inter> {} = {}" by simp
    show "list_all (\<lambda>j. 2 \<le> length (array_keys ?sj j)) ?js"
      by (simp add: list_all_iff set_combine_jsons)
  qed
  then show ?thesis
    by (simp add: combine_spec_def combine_groups_def groups_from_jsons set_combine_jsons)
qed

lemma distinct_array_keys: "distinct (map fst sj) \<Longrightarrow> distinct (array_keys sj j)"
  by (simp add: array_keys_def distinct_map_filter)

lemma short_list_unique:
  "length xs \<le> 1 \<Longrightarrow> x \<in> set xs \<Longrightarrow> y \<in> set xs \<Longrightarrow> x = y"
  by (cases xs) auto

lemma unique_short_list:
  "distinct xs \<Longrightarrow> (\<And>x y. x \<in> set xs \<Longrightarrow> y \<in> set xs \<Longrightarrow> x = y) \<Longrightarrow> length xs \<le> 1"
proof (cases xs)
  case Nil
  then show ?thesis by simp
next
  case (Cons a as)
  assume d: "distinct xs" and u: "\<And>x y. x \<in> set xs \<Longrightarrow> y \<in> set xs \<Longrightarrow> x = y"
  show ?thesis
  proof (cases as)
    case Nil
    then show ?thesis using Cons by simp
  next
    case (Cons b bs)
    have "a = b" using u[of a b] \<open>xs = a # as\<close> Cons by simp
    then show ?thesis using d \<open>xs = a # as\<close> Cons by simp
  qed
qed

lemma combine_spec_encodings_unique:
  assumes d0: "distinct (map fst ws0)"
    and m1: "(k1, r1) \<in> set (combine_spec ws0)" and m2: "(k2, r2) \<in> set (combine_spec ws0)"
    and eq: "rule_json r1 = rule_json r2"
  shows "k1 = k2"
proof -
  let ?sj = "encodings ws0"
  let ?P = "{j. 2 \<le> length (array_keys ?sj j)}"
  have inv: "combine_inv ws0 ?P (combine_spec ws0)" using d0 by (rule combine_spec_inv)
  note k1 = combine_inv_kinds[OF inv m1] and k2 = combine_inv_kinds[OF inv m2]
  show ?thesis
  proof (cases "rule_json r1 \<in> ?P")
    case True
    then have "\<forall>k' rule'. (k', rule') \<in> set (combine_spec ws0) \<and> rule_json rule' = rule_json r1
                 \<longrightarrow> k' = k1"
      using k1 by simp
    then have "(k2, r2) \<in> set (combine_spec ws0) \<and> rule_json r2 = rule_json r1 \<longrightarrow> k2 = k1"
      by (elim allE)
    then show ?thesis using m2 eq by simp
  next
    case False
    then have a: "map_of ws0 k1 = Some r1" using k1 by simp
    from False eq have "rule_json r2 \<notin> ?P" by simp
    then have b: "map_of ws0 k2 = Some r2" using k2 by simp
    have "k1 \<in> set (array_keys ?sj (rule_json r1))"
      using array_keys_encodings_map_of[OF d0 a] by simp
    moreover have "k2 \<in> set (array_keys ?sj (rule_json r1))"
      using array_keys_encodings_map_of[OF d0 b] eq by simp
    moreover have "length (array_keys ?sj (rule_json r1)) \<le> 1" using False by simp
    ultimately show ?thesis by (rule short_list_unique[rotated])
  qed
qed

lemma groups_from_none:
  "(\<And>j. length (array_keys sj j) \<le> 1) \<Longrightarrow> groups_from sj seen rest = []"
  by (induction sj seen rest rule: groups_from.induct) simp_all

lemma combine_spec_distinct: 
  assumes "distinct (map fst ws0)"
  shows "distinct (map fst (combine_spec ws0))"
  using combine_spec_inv[OF assms] by (rule combine_inv_distinct)

lemma combine_spec_idem:
  assumes d0: "distinct (map fst ws0)"
  shows "combine_spec (combine_spec ws0) = combine_spec ws0"
proof -
  let ?ws = "combine_spec ws0"
  have d: "distinct (map fst (encodings ?ws))"
    using combine_spec_distinct[OF d0] by (simp add: encodings_def comp_def case_prod_unfold)
  have "length (array_keys (encodings ?ws) j) \<le> 1" for j
  proof (rule unique_short_list)
    show "distinct (array_keys (encodings ?ws) j)" using d by (rule distinct_array_keys)
  next
    fix x y assume "x \<in> set (array_keys (encodings ?ws) j)" "y \<in> set (array_keys (encodings ?ws) j)"
    then obtain rx ry where "(x, rx) \<in> set ?ws" "rule_json rx = j" "(y, ry) \<in> set ?ws" "rule_json ry = j"
      unfolding array_keys_encodings by blast
    then show "x = y" using combine_spec_encodings_unique[OF d0, of x rx y ry] by simp
  qed
  then have "combine_groups (encodings ?ws) = []"
    unfolding combine_groups_def by (rule groups_from_none)
  then show ?thesis by (simp add: combine_spec_def[of ?ws])
qed

lemma add_rules_nil: "add_rules q (Rules []) = q"
  by (simp add: add_rules_def)

lemma pull_stores_no_rules:
  assumes "list_all (\<lambda>(n, store). rules store = []) (stores p)"
  shows "pull_stores p = p"
proof -
  have "list_all (\<lambda>s. rules s = []) ss \<Longrightarrow>
        foldl (\<lambda>q store. add_rules q (Rules (get_all_rules store))) q ss = q" for ss q
    by (induction ss) (simp_all add: get_all_rules_def add_rules_nil)
  moreover have "list_all (\<lambda>s. rules s = []) (map snd (stores p))"
    using assms by (auto simp: list_all_iff)
  ultimately show ?thesis by (simp add: pull_stores_def)
qed

lemma valid_working_set_keys: "map fst (working_set p) = map fst (css_rules p)"
  by (simp add: working_set_def comp_def case_prod_unfold)

subsection \<open>The combine pass when combined selectors do not collide\<close>

lemma map_of_filter_keys:
  "k \<notin> G \<Longrightarrow> map_of (filter (\<lambda>(k', v). k' \<notin> G) al) k = map_of al k"
  by (induction al) auto

lemma filter_update_commute:
  "k \<notin> G \<Longrightarrow> filter (\<lambda>(k', v). k' \<notin> G) (AList.update k v al)
               = AList.update k v (filter (\<lambda>(k', v). k' \<notin> G) al)"
  by (induction al) auto

lemma declarations_of_group_step:
  assumes "k \<notin> set G" and "k \<noteq> implode '','' G"
  shows "declarations_of (group_step cr G) k = declarations_of cr k"
  using assms
  by (simp add: declarations_of_def group_step_def combined_rule_def AList.update_conv'
      map_of_filter_keys)

lemma fold_group_step_closed:
  "distinct (concat Gs) \<Longrightarrow> list_all (\<lambda>G. G \<noteq> []) Gs \<Longrightarrow>
   list_all (\<lambda>G. implode '','' G \<notin> set (concat Gs)) Gs \<Longrightarrow>
   foldl group_step cr Gs
     = foldl (store_combined cr) (filter (\<lambda>(k, rule). k \<notin> set (concat Gs)) cr) Gs"
proof (induction Gs arbitrary: cr)
  case Nil
  then show ?case by simp
next
  case (Cons G Gs)
  let ?kG = "implode '','' G"
  let ?cr1 = "group_step cr G"
  have kG: "?kG \<notin> set (concat Gs)" and kG': "?kG \<notin> set G"
    using Cons.prems(3) by auto
  have clear: "list_all (\<lambda>G. implode '','' G \<notin> set (concat Gs)) Gs"
    using Cons.prems(3) by (auto simp: list_all_iff)
  have IH: "foldl group_step ?cr1 Gs
     = foldl (store_combined ?cr1) (filter (\<lambda>(k, rule). k \<notin> set (concat Gs)) ?cr1) Gs"
    using Cons.prems(1,2) clear by (intro Cons.IH) auto
  have same: "store_combined ?cr1 ws G' = store_combined cr ws G'" if "G' \<in> set Gs" for ws G'
  proof -
    have "G' \<noteq> []" using that Cons.prems(2) by (auto simp: list_all_iff)
    then have h: "hd G' \<in> set G'" by simp
    then have "hd G' \<in> set (concat Gs)" using that by auto
    then have "hd G' \<notin> set G" "hd G' \<noteq> ?kG" using Cons.prems(1) kG by auto
    then have "declarations_of ?cr1 (hd G') = declarations_of cr (hd G')"
      by (rule declarations_of_group_step)
    then show ?thesis by (simp add: store_combined_def combined_rule_def)
  qed
  have fold_same: "foldl (store_combined ?cr1) ws Gs = foldl (store_combined cr) ws Gs" for ws
    using same by (induction Gs arbitrary: ws) simp_all
  let ?c = "snd (combined_rule cr G)"
  let ?F = "filter (\<lambda>(k, rule). k \<notin> set G) cr"
  have e1: "?cr1 = AList.update ?kG ?c ?F" by (simp add: group_step_def combined_rule_def)
  have e2: "filter (\<lambda>(k, rule). k \<notin> set (concat Gs)) (AList.update ?kG ?c ?F)
          = AList.update ?kG ?c (filter (\<lambda>(k, rule). k \<notin> set (concat Gs)) ?F)"
    using kG by (rule filter_update_commute)
  have e3: "filter (\<lambda>(k, rule). k \<notin> set (concat Gs)) ?F
          = filter (\<lambda>(k, rule). k \<notin> set (concat (G # Gs))) cr"
    unfolding filter_filter by (rule filter_cong) auto
  have "filter (\<lambda>(k, rule). k \<notin> set (concat Gs)) ?cr1
        = store_combined cr (filter (\<lambda>(k, rule). k \<notin> set (concat (G # Gs))) cr) G"
    unfolding e1 e2 e3 by (simp add: store_combined_def combined_rule_def)
  then show ?case using IH fold_same by simp
qed

lemma distinct_concat_groups:
  assumes "distinct (map fst sj)"
  shows "distinct js \<Longrightarrow> distinct (concat (map (array_keys sj) js))"
proof (induction js)
  case Nil
  then show ?case by simp
next
  case (Cons j js)
  have "set (array_keys sj j) \<inter> set (array_keys sj j') = {}" if "j' \<in> set js" for j'
  proof -
    have "j \<noteq> j'" using Cons.prems that by auto
    then show ?thesis
      using assms by (auto simp: mem_array_keys dest: distinct_keys_unique)
  qed
  then show ?case using Cons assms by (auto simp: distinct_array_keys)
qed

lemma combine_groups_facts:
  assumes d: "distinct (map fst sj)"
  shows "distinct (concat (combine_groups sj))"
    and "list_all (\<lambda>G. G \<noteq> []) (combine_groups sj)"
    and "set (concat (combine_groups sj)) = {k. \<exists>j. (k, j) \<in> set sj \<and> 2 \<le> length (array_keys sj j)}"
    and "set (combine_groups sj) = {array_keys sj j |j. 2 \<le> length (array_keys sj j)}"
proof -
  let ?js = "group_jsons sj [] sj"
  have G: "combine_groups sj = map (array_keys sj) ?js"
    by (simp add: combine_groups_def groups_from_jsons)
  show "distinct (concat (combine_groups sj))"
    unfolding G using d distinct_group_jsons by (rule distinct_concat_groups)
  show "list_all (\<lambda>G. G \<noteq> []) (combine_groups sj)"
    unfolding G by (auto simp: list_all_iff set_combine_jsons)
  show "set (concat (combine_groups sj)) = {k. \<exists>j. (k, j) \<in> set sj \<and> 2 \<le> length (array_keys sj j)}"
    unfolding G by (auto simp: set_combine_jsons mem_array_keys)
  show "set (combine_groups sj) = {array_keys sj j |j. 2 \<le> length (array_keys sj j)}"
    unfolding G by (auto simp: set_combine_jsons)
qed

lemma distinct_nonempty_concat:
  "distinct (concat xs) \<Longrightarrow> list_all (\<lambda>x. x \<noteq> []) xs \<Longrightarrow> distinct xs"
proof (induction xs)
  case Nil
  then show ?case by simp
next
  case (Cons x xs)
  have "x \<notin> set xs"
  proof
    assume "x \<in> set xs"
    then have "set x \<subseteq> set (concat xs)" by auto
    moreover have "hd x \<in> set x" using Cons.prems(2) by simp
    ultimately show False using Cons.prems(1) by auto
  qed
  then show ?case using Cons by simp
qed

lemma member_of_group:
  assumes d: "distinct (map fst ws)" and m: "(k, rule) \<in> set ws"
  shows "k \<in> set (concat (combine_groups (encodings ws)))
         \<longleftrightarrow> 2 \<le> length (array_keys (encodings ws) (rule_json rule))"
proof -
  have de: "distinct (map fst (encodings ws))"
    using d by (simp add: encodings_def comp_def case_prod_unfold)
  have mo: "map_of ws k = Some rule" using d m by simp
  have "(k, j) \<in> set (encodings ws) \<longleftrightarrow> rule_json rule = j" for j
    using array_keys_encodings_map_of[OF d mo, of j] by (simp add: mem_array_keys)
  then show ?thesis unfolding combine_groups_facts(3)[OF de] by auto
qed

lemma map_of_foldl_update_other:
  "k \<notin> f ` set Gs \<Longrightarrow>
   map_of (foldl (\<lambda>a G. AList.update (f G) (g G) a) A Gs) k = map_of A k"
  by (induction Gs arbitrary: A) (simp_all add: AList.update_conv')

lemma map_of_foldl_update:
  "distinct (map f Gs) \<Longrightarrow> G \<in> set Gs \<Longrightarrow>
   map_of (foldl (\<lambda>a G. AList.update (f G) (g G) a) A Gs) (f G) = Some (g G)"
proof (induction Gs arbitrary: A)
  case Nil
  then show ?case by simp
next
  case (Cons G' Gs)
  show ?case
  proof (cases "G = G'")
    case True
    then have "f G \<notin> f ` set Gs" using Cons.prems(1) by auto
    then show ?thesis using True by (simp add: map_of_foldl_update_other AList.update_conv')
  next
    case False
    then show ?thesis using Cons by simp
  qed
qed

lemma combine_spec_collision:
  assumes d0: "distinct (map fst ws0)"
    and multi: "2 \<le> length (array_keys (encodings ws0) j)"
    and old: "map_of ws0 (implode '','' (array_keys (encodings ws0) j)) = Some old"
    and own: "length (array_keys (encodings ws0) (rule_json old)) \<le> 1"
  shows "\<exists>new. map_of (combine_spec ws0) (implode '','' (array_keys (encodings ws0) j)) = Some new
           \<and> selector new = implode '','' (array_keys (encodings ws0) j)
           \<and> 2 \<le> length (array_keys (encodings ws0) (rule_json new))"
    and "list_all (\<lambda>(k', rule). rule_json rule \<noteq> rule_json old) (combine_spec ws0)"
proof -
  let ?sj = "encodings ws0"
  let ?P = "{j. 2 \<le> length (array_keys ?sj j)}"
  define k where "k = implode '','' (array_keys ?sj j)"
  define ws where "ws = combine_spec ws0"
  have inv: "combine_inv ws0 ?P ws" unfolding ws_def using d0 by (rule combine_spec_inv)
  have dws: "distinct (map fst ws)" using inv by (rule combine_inv_distinct)
  have old_mem: "(k, old) \<in> set ws0" using old unfolding k_def by (rule map_of_SomeD)
  have oldP: "rule_json old \<notin> ?P" using own by simp
  have "k \<in> fst ` set ws" using inv old_mem oldP by (rule combine_inv_keep)
  from map_of_in_keys[OF this] obtain new where new: "map_of ws k = Some new" ..
  then have new_mem: "(k, new) \<in> set ws" by (rule map_of_SomeD)
  have kJ: "k \<in> (\<lambda>j. implode '','' (array_keys ?sj j)) ` ?P"
    using multi unfolding k_def by blast
  from combine_inv_kinds[OF inv new_mem] kJ
  have second: "selector new = k" "rule_json new \<in> ?P" by auto
  show "\<exists>new. map_of (combine_spec ws0) (implode '','' (array_keys ?sj j)) = Some new
           \<and> selector new = implode '','' (array_keys ?sj j)
           \<and> 2 \<le> length (array_keys ?sj (rule_json new))"
    using new second unfolding ws_def k_def by simp
  have "rule_json rule \<noteq> rule_json old" if m: "(k', rule) \<in> set ws" for k' rule
  proof
    assume eq: "rule_json rule = rule_json old"
    then have notP: "rule_json rule \<notin> ?P" using oldP by simp
    with combine_inv_kinds[OF inv m] have first: "map_of ws0 k' = Some rule" by simp
    have "k' \<in> set (array_keys ?sj (rule_json old))"
      using array_keys_encodings_map_of[OF d0 first] eq by simp
    moreover have "k \<in> set (array_keys ?sj (rule_json old))"
      using array_keys_encodings_map_of[OF d0 old] unfolding k_def by simp
    ultimately have "k' = k" using own by (rule short_list_unique[rotated])
    then have "rule = new" using m new dws by simp
    then show False using second(2) notP by simp
  qed
  then show "list_all (\<lambda>(k', rule). rule_json rule \<noteq> rule_json old) (combine_spec ws0)"
    unfolding ws_def list_all_iff by blast
qed

lemma combine_spec_collision_exact:
  assumes d0: "distinct (map fst ws0)"
    and multi: "2 \<le> length (array_keys (encodings ws0) j)"
    and clear: "joins_clear ws0"
  shows "map_of (combine_spec ws0) (implode '','' (array_keys (encodings ws0) j))
         = Some (snd (combined_rule ws0 (array_keys (encodings ws0) j)))"
proof -
  let ?sj = "encodings ws0"
  let ?Gs = "combine_groups ?sj"
  let ?G = "array_keys ?sj j"
  have de: "distinct (map fst ?sj)"
    using d0 by (simp add: encodings_def comp_def case_prod_unfold)
  note facts = combine_groups_facts[OF de]
  have G: "?G \<in> set ?Gs" unfolding facts(4) using multi by blast
  let ?A = "filter (\<lambda>(k, rule). k \<notin> set (concat ?Gs)) ws0"
  have "combine_spec ws0 = foldl (store_combined ws0) ?A ?Gs"
    unfolding combine_spec_def using facts(1,2) clear
    by (intro fold_group_step_closed) (simp_all add: joins_clear_def)
  also have "\<dots> = foldl (\<lambda>a G. AList.update (fst (combined_rule ws0 G)) (snd (combined_rule ws0 G)) a)
                     ?A ?Gs"
    by (simp add: store_combined_def[abs_def])
  finally have spec: "combine_spec ws0
     = foldl (\<lambda>a G. AList.update (fst (combined_rule ws0 G)) (snd (combined_rule ws0 G)) a) ?A ?Gs" .
  have "distinct (map (\<lambda>G. fst (combined_rule ws0 G)) ?Gs)"
    using clear by (simp add: joins_clear_def combined_rule_def)
  from map_of_foldl_update[OF this G, of "\<lambda>G. snd (combined_rule ws0 G)" ?A]
  show ?thesis unfolding spec by (simp add: combined_rule_def)
qed

subsection \<open>Feeding a sequence of rules\<close>

lemma new_entries_cong:
  "set ks = set ks' \<Longrightarrow> (\<And>r. r \<in> set rs \<Longrightarrow> selector (h ! r) = selector (h' ! r)) \<Longrightarrow>
   new_entries h ks rs = new_entries h' ks' rs"
proof (induction rs arbitrary: ks ks')
  case Nil
  then show ?case by simp
next
  case (Cons r rs)
  have sel: "selector (h ! r) = selector (h' ! r)" using Cons.prems(2) by simp
  have rest: "new_entries h ks rs = new_entries h' ks' rs"
    using Cons.prems by (intro Cons.IH) simp_all
  have rest': "new_entries h (selector (h' ! r) # ks) rs = new_entries h' (selector (h' ! r) # ks') rs"
    using Cons.prems by (intro Cons.IH) simp_all
  show ?case using Cons.prems(1) sel rest rest' by simp
qed

lemma add_rule_selector: "selector (heap (add_rule p r) ! x) = selector (heap p ! x)"
proof (cases "map_of (css_rules p) (selector (heap p ! r))")
  case None
  then show ?thesis by (simp add: add_rule_def)
next
  case (Some e)
  show ?thesis
  proof (cases "e < length (heap p)")
    case True
    then show ?thesis using Some
      by (cases "x = e") (simp_all add: add_rule_def add_declarations_def)
  next
    case False
    then have "length (heap p) \<le> e" by simp
    then have "(heap p)[e := add_declarations (heap p ! e) (declarations (heap p ! r))] = heap p"
      by (rule list_update_beyond)
    then show ?thesis using Some by (simp add: add_rule_def)
  qed
qed

lemma foldl_add_rule_selector: "selector (heap (foldl add_rule p rs) ! x) = selector (heap p ! x)"
  by (induction rs arbitrary: p) (simp_all add: add_rule_selector)

lemma merge_declarations_absorb:
  "(\<And>k v. (k, v) \<in> set b \<Longrightarrow> map_of a k = Some v) \<Longrightarrow> merge_declarations a b = a"
proof (induction b)
  case Nil
  then show ?case by (simp add: merge_declarations_def)
next
  case (Cons x b)
  obtain k v where x: "x = (k, v)" by (cases x)
  have "AList.update k v a = a" using Cons.prems[of k v] x by (simp add: AList.update_triv)
  moreover have "merge_declarations a b = a" using Cons.prems by (intro Cons.IH) simp
  ultimately show ?case by (simp add: merge_declarations_def x)
qed

lemma merge_declarations_self: "distinct (map fst d) \<Longrightarrow> merge_declarations d d = d"
  by (rule merge_declarations_absorb) simp

lemma add_rule_valid_heap:
  assumes "valid_heap p"
  shows "valid_heap (add_rule p r)"
proof (cases "map_of (css_rules p) (selector (heap p ! r))")
  case None
  then show ?thesis using assms by (simp add: add_rule_def valid_heap_def)
next
  case (Some e)
  have "distinct (map fst (declarations (add_declarations (heap p ! e) ds)))"
    if "e < length (heap p)" for ds
    using assms that
    by (simp add: add_declarations_def valid_heap_def list_all_length merge_declarations_distinct)
  then have "distinct (map fst (declarations
           ((heap p)[e := add_declarations (heap p ! e) (declarations (heap p ! r))] ! n)))"
    if "n < length (heap p)" for n
    using assms that
    by (cases "n = e") (simp_all add: valid_heap_def list_all_length)
  then show ?thesis using Some
    by (simp add: add_rule_def valid_heap_def list_all_length)
qed

lemma merged_rule_eq:
  assumes "\<And>r. r \<in> set rs \<Longrightarrow> selector (h' ! r) = selector (h ! r)"
    and "selector (h' ! x) = selector (h ! x)"
    and "\<And>r. r \<in> set rs \<Longrightarrow> selector (h ! r) = selector (h ! x) \<Longrightarrow> r \<noteq> x
            \<Longrightarrow> declarations (h' ! r) = declarations (h ! r)"
  shows "merged_rule h' rs x =
     (h' ! x)\<lparr>declarations :=
        foldl merge_declarations (declarations (h' ! x))
          (map (\<lambda>r. declarations (h ! r))
             (filter (\<lambda>r. selector (h ! r) = selector (h ! x) \<and> r \<noteq> x) rs))\<rparr>"
proof -
  have f: "filter (\<lambda>r. selector (h' ! r) = selector (h' ! x) \<and> r \<noteq> x) rs
         = filter (\<lambda>r. selector (h ! r) = selector (h ! x) \<and> r \<noteq> x) rs"
    by (rule filter_cong[OF refl]) (simp add: assms(1,2))
  have m: "map (\<lambda>r. declarations (h' ! r))
             (filter (\<lambda>r. selector (h ! r) = selector (h ! x) \<and> r \<noteq> x) rs)
         = map (\<lambda>r. declarations (h ! r))
             (filter (\<lambda>r. selector (h ! r) = selector (h ! x) \<and> r \<noteq> x) rs)"
    by (rule map_cong[OF refl]) (simp add: assms(3))
  show ?thesis unfolding merged_rule_def f m ..
qed

lemma foldl_add_rule_valid_heap: "valid_heap p \<Longrightarrow> valid_heap (foldl add_rule p rs)"
  by (induction rs arbitrary: p) (simp_all add: add_rule_valid_heap)

lemma add_rule_css_rules_mono: "set (css_rules p) \<subseteq> set (css_rules (add_rule p r))"
proof (cases "map_of (css_rules p) (selector (heap p ! r))")
  case None
  then have "selector (heap p ! r) \<notin> fst ` set (css_rules p)" by (simp add: map_of_eq_None_iff)
  then show ?thesis using None by (auto simp: add_rule_def update_fresh)
next
  case (Some e)
  then show ?thesis by (simp add: add_rule_def)
qed

lemma foldl_add_rule_css_rules_mono: "set (css_rules p) \<subseteq> set (css_rules (foldl add_rule p rs))"
proof (induction rs arbitrary: p)
  case Nil
  then show ?case by simp
next
  case (Cons r rs)
  have "set (css_rules p) \<subseteq> set (css_rules (add_rule p r))" by (rule add_rule_css_rules_mono)
  also have "\<dots> \<subseteq> set (css_rules (foldl add_rule (add_rule p r) rs))" by (rule Cons.IH)
  finally show ?case by simp
qed

text \<open>Two entries of a well-formed processor whose rules have the same selector are one entry.\<close>

lemma valid_entry_selector:
  "valid_processor q \<Longrightarrow> (k, x) \<in> set (css_rules q) \<Longrightarrow> selector (heap q ! x) = k"
  by (auto simp: valid_processor_def list_all_iff)

lemma valid_entries_unique:
  assumes "valid_processor q" and "x \<in> snd ` set (css_rules q)" and "y \<in> snd ` set (css_rules q)"
    and "selector (heap q ! x) = selector (heap q ! y)"
  shows "x = y"
proof -
  obtain k where k: "(k, x) \<in> set (css_rules q)" using assms(2) by force
  obtain k' where k': "(k', y) \<in> set (css_rules q)" using assms(3) by force
  have "k = k'" using valid_entry_selector[OF assms(1) k] valid_entry_selector[OF assms(1) k'] assms(4)
    by simp
  then show ?thesis using assms(1) k k' by (auto simp: valid_processor_def dest: eq_key_imp_eq_value)
qed

lemma feed_rules:
  "valid_processor p \<Longrightarrow> valid_heap p \<Longrightarrow> list_all (\<lambda>r. r < length (heap p)) rs \<Longrightarrow>
   css_rules (foldl add_rule p rs) = css_rules p @ new_entries (heap p) (map fst (css_rules p)) rs
   \<and> (\<forall>x < length (heap p).
         heap (foldl add_rule p rs) ! x
         = (if x \<in> snd ` set (css_rules (foldl add_rule p rs)) then merged_rule (heap p) rs x
            else heap p ! x))"
proof (induction rs arbitrary: p)
  case Nil
  have "merged_rule (heap p) [] x = heap p ! x" for x by (simp add: merged_rule_def)
  then show ?case by simp
next
  case (Cons r rs)
  define s where "s = selector (heap p ! r)"
  define p' where "p' = add_rule p r"
  define q where "q = foldl add_rule p' rs"
  define E where "E = snd ` set (css_rules q)"
  have r: "r < length (heap p)" using Cons.prems(3) by simp
  have len: "length (heap p') = length (heap p)" by (simp add: p'_def add_rule_length)
  have v': "valid_processor p'" unfolding p'_def using Cons.prems(1) r by (rule add_rule_valid)
  have vh': "valid_heap p'" unfolding p'_def using Cons.prems(2) by (rule add_rule_valid_heap)
  have rs': "list_all (\<lambda>r. r < length (heap p')) rs" using Cons.prems(3) len by simp
  have sel': "selector (heap p' ! y) = selector (heap p ! y)" for y
    by (simp add: p'_def add_rule_selector)
  have vq: "valid_processor q"
    unfolding q_def using foldl_add_rule_valid[OF v' rs'] by simp
  have selq: "selector (heap q ! y) = selector (heap p ! y)" for y
    by (simp add: q_def foldl_add_rule_selector sel')
  have mono: "set (css_rules p') \<subseteq> set (css_rules q)"
    unfolding q_def by (rule foldl_add_rule_css_rules_mono)
  have uniq: "x = y" if "x \<in> E" "y \<in> E" "selector (heap p ! x) = selector (heap p ! y)" for x y
    using vq that unfolding E_def by (intro valid_entries_unique[of q x y]) (simp_all add: selq)
  from Cons.IH[OF v' vh' rs']
  have IH1: "css_rules q = css_rules p' @ new_entries (heap p') (map fst (css_rules p')) rs"
    and IH2: "\<And>x. x < length (heap p) \<Longrightarrow>
               heap q ! x = (if x \<in> E then merged_rule (heap p') rs x else heap p' ! x)"
    unfolding q_def E_def len by auto
  have goal1: "css_rules q = css_rules p @ new_entries (heap p) (map fst (css_rules p)) (r # rs)"
    and goal2: "\<And>x. x < length (heap p) \<Longrightarrow> x \<in> E \<Longrightarrow>
                  merged_rule (heap p') rs x = merged_rule (heap p) (r # rs) x"
    and goal3: "\<And>x. x < length (heap p) \<Longrightarrow> x \<notin> E \<Longrightarrow> heap p' ! x = heap p ! x"
  proof -
    show "css_rules q = css_rules p @ new_entries (heap p) (map fst (css_rules p)) (r # rs)"
    proof (cases "map_of (css_rules p) s")
      case None
      then have fresh: "s \<notin> fst ` set (css_rules p)" by (simp add: map_of_eq_None_iff)
      have p'_eq: "css_rules p' = css_rules p @ [(s, r)]"
        using None fresh by (simp add: p'_def add_rule_def s_def update_fresh)
      have "new_entries (heap p') (map fst (css_rules p')) rs
            = new_entries (heap p) (s # map fst (css_rules p)) rs"
        by (rule new_entries_cong) (auto simp: p'_eq sel')
      then show ?thesis using fresh unfolding IH1 p'_eq by (simp add: s_def)
    next
      case (Some e)
      then have "s \<in> fst ` set (css_rules p)"
        by (metis domI dom_map_of_conv_image_fst)
      moreover have p'_eq: "css_rules p' = css_rules p"
        using Some by (simp add: p'_def add_rule_def s_def)
      moreover have "new_entries (heap p') (map fst (css_rules p)) rs
            = new_entries (heap p) (map fst (css_rules p)) rs"
        by (rule new_entries_cong) (auto simp: sel')
      ultimately show ?thesis unfolding IH1 by (simp add: s_def)
    qed
  next
    fix x assume x: "x < length (heap p)" and xE: "x \<in> E"
    show "merged_rule (heap p') rs x = merged_rule (heap p) (r # rs) x"
    proof (cases "map_of (css_rules p) s")
      case None
      then have fresh: "s \<notin> fst ` set (css_rules p)" by (simp add: map_of_eq_None_iff)
      have heap': "heap p' = heap p" using None by (simp add: p'_def add_rule_def s_def)
      have "(s, r) \<in> set (css_rules p')"
        using None fresh by (simp add: p'_def add_rule_def s_def update_fresh)
      then have "r \<in> E" using mono unfolding E_def by force
      then have "\<not> (selector (heap p ! r) = selector (heap p ! x) \<and> r \<noteq> x)"
        using uniq[of r x] xE by blast
      then have "filter (\<lambda>r. selector (heap p ! r) = selector (heap p ! x) \<and> r \<noteq> x) (r # rs)
               = filter (\<lambda>r. selector (heap p ! r) = selector (heap p ! x) \<and> r \<noteq> x) rs"
        by simp
      then show ?thesis unfolding heap' merged_rule_def by simp
    next
      case (Some e)
      have mem: "(s, e) \<in> set (css_rules p)" using Some by (rule map_of_SomeD)
      have e: "e < length (heap p)" and sele: "selector (heap p ! e) = s"
        using Cons.prems(1) mem by (auto simp: valid_processor_def list_all_iff)
      have heap': "heap p' = (heap p)[e := add_declarations (heap p ! e) (declarations (heap p ! r))]"
        using Some by (simp add: p'_def add_rule_def s_def)
      have "(s, e) \<in> set (css_rules p')" using mem add_rule_css_rules_mono[of p r] by (auto simp: p'_def)
      then have eE: "e \<in> E" using mono unfolding E_def by force
      have other: "heap p' ! y = heap p ! y" if "y \<noteq> e" for y
        using that unfolding heap' by simp
      have at_e: "heap p' ! e = add_declarations (heap p ! e) (declarations (heap p ! r))"
        unfolding heap' using e by simp
      have stable: "declarations (heap p' ! r') = declarations (heap p ! r')"
        if "selector (heap p ! r') = selector (heap p ! x)" "r' \<noteq> x" for r'
      proof (cases "r' = e")
        case True
        then have "x = e" using uniq[of x e] xE eE that(1) by simp
        then show ?thesis using True that(2) by simp
      next
        case False
        then show ?thesis by (simp add: other)
      qed
      have m: "merged_rule (heap p') rs x =
         (heap p' ! x)\<lparr>declarations :=
            foldl merge_declarations (declarations (heap p' ! x))
              (map (\<lambda>r. declarations (heap p ! r))
                 (filter (\<lambda>r. selector (heap p ! r) = selector (heap p ! x) \<and> r \<noteq> x) rs))\<rparr>"
        by (rule merged_rule_eq) (simp_all add: sel' stable)
      have t: "merged_rule (heap p) (r # rs) x =
         (heap p ! x)\<lparr>declarations :=
            foldl merge_declarations (declarations (heap p ! x))
              (map (\<lambda>r. declarations (heap p ! r))
                 (filter (\<lambda>r. selector (heap p ! r) = selector (heap p ! x) \<and> r \<noteq> x) (r # rs)))\<rparr>"
        unfolding merged_rule_def ..
      show ?thesis
      proof (cases "x = e")
        case True
        show ?thesis
        proof (cases "r = e")
          case True
          have "merge_declarations (declarations (heap p ! e)) (declarations (heap p ! e))
                = declarations (heap p ! e)"
            using Cons.prems(2) e
            by (intro merge_declarations_self) (simp add: valid_heap_def list_all_length)
          moreover have "filter (\<lambda>r. selector (heap p ! r) = selector (heap p ! e) \<and> r \<noteq> e) (r # rs)
               = filter (\<lambda>r. selector (heap p ! r) = selector (heap p ! e) \<and> r \<noteq> e) rs"
            using True by simp
          ultimately show ?thesis
            unfolding m t using \<open>x = e\<close> True at_e
            by (simp add: add_declarations_def)
        next
          case False
          then have "filter (\<lambda>r. selector (heap p ! r) = selector (heap p ! e) \<and> r \<noteq> e) (r # rs)
               = r # filter (\<lambda>r. selector (heap p ! r) = selector (heap p ! e) \<and> r \<noteq> e) rs"
            using sele by (simp add: s_def)
          then show ?thesis
            unfolding m t using True at_e
            by (simp add: add_declarations_def)
        qed
      next
        case False
        have "selector (heap p ! x) \<noteq> s"
          using uniq[of x e] xE eE sele False by auto
        then have "\<not> (selector (heap p ! r) = selector (heap p ! x) \<and> r \<noteq> x)"
          by (simp add: s_def)
        then have "filter (\<lambda>r. selector (heap p ! r) = selector (heap p ! x) \<and> r \<noteq> x) (r # rs)
               = filter (\<lambda>r. selector (heap p ! r) = selector (heap p ! x) \<and> r \<noteq> x) rs"
          by simp
        then show ?thesis unfolding m t using other[OF False] by simp
      qed
    qed
  next
    fix x assume x: "x < length (heap p)" and xE: "x \<notin> E"
    show "heap p' ! x = heap p ! x"
    proof (cases "map_of (css_rules p) s")
      case None
      then show ?thesis by (simp add: p'_def add_rule_def s_def)
    next
      case (Some e)
      have mem: "(s, e) \<in> set (css_rules p)" using Some by (rule map_of_SomeD)
      then have "(s, e) \<in> set (css_rules p')" using add_rule_css_rules_mono[of p r] by (auto simp: p'_def)
      then have "e \<in> E" using mono unfolding E_def by force
      then have "x \<noteq> e" using xE by auto
      then show ?thesis using Some by (simp add: p'_def add_rule_def s_def)
    qed
  qed
  have fold: "foldl add_rule p (r # rs) = q" by (simp add: q_def p'_def)
  show ?case
    unfolding fold E_def[symmetric]
  proof (intro conjI allI impI)
    show "css_rules q = css_rules p @ new_entries (heap p) (map fst (css_rules p)) (r # rs)"
      by (rule goal1)
  next
    fix x assume x: "x < length (heap p)"
    show "heap q ! x = (if x \<in> E then merged_rule (heap p) (r # rs) x else heap p ! x)"
      using IH2[OF x] goal2[OF x] goal3[OF x] by simp
  qed
qed

lemma alist_eqI:
  "distinct (map fst a) \<Longrightarrow> map fst a = map fst b \<Longrightarrow> map_of a = map_of b \<Longrightarrow> a = b"
proof (induction a arbitrary: b)
  case Nil
  then show ?case by simp
next
  case (Cons x a)
  obtain k v where x: "x = (k, v)" by (cases x)
  obtain y b' where b: "b = y # b'" using Cons.prems(2) by (cases b) auto
  obtain k' v' where y: "y = (k', v')" by (cases y)
  have k: "k' = k" and keys: "map fst a = map fst b'" using Cons.prems(2) by (simp_all add: x b y)
  have "map_of (x # a) k = map_of b k" by (rule fun_cong[OF Cons.prems(3)])
  then have v: "v' = v" by (simp add: x b y k)
  have fresh: "k \<notin> fst ` set a" "k \<notin> fst ` set b'"
    using Cons.prems(1) keys x by (auto simp flip: set_map)
  have "map_of a z = map_of b' z" for z
  proof (cases "z = k")
    case True
    then show ?thesis using fresh by (simp add: map_of_eq_None_iff[THEN iffD2])
  next
    case False
    have "map_of (x # a) z = map_of b z" by (rule fun_cong[OF Cons.prems(3)])
    then show ?thesis using False by (simp add: x b y k)
  qed
  then have "map_of a = map_of b'" by (rule ext)
  then have "a = b'" using Cons.prems(1) keys by (intro Cons.IH) simp_all
  then show ?case by (simp add: x b y k v)
qed

lemma merge_declarations_keys:
  "fst ` set (merge_declarations a b) = fst ` set a \<union> fst ` set b"
proof (induction b arbitrary: a)
  case Nil
  then show ?case by (simp add: merge_declarations_def)
next
  case (Cons x b)
  obtain k v where x: "x = (k, v)" by (cases x)
  have "fst ` set (merge_declarations (AList.update k v a) b)
        = fst ` set (AList.update k v a) \<union> fst ` set b"
    by (rule Cons.IH)
  also have "\<dots> = fst ` set a \<union> fst ` set (x # b)"
    unfolding AList.dom_update by (auto simp: x)
  finally show ?case by (simp add: merge_declarations_def x)
qed

lemma merge_declarations_same_keys:
  "fst ` set b \<subseteq> fst ` set a \<Longrightarrow> map fst (merge_declarations a b) = map fst a"
proof (induction b arbitrary: a)
  case Nil
  then show ?case by (simp add: merge_declarations_def)
next
  case (Cons x b)
  obtain k v where x: "x = (k, v)" by (cases x)
  have k: "k \<in> fst ` set a" using Cons.prems x by auto
  have m: "map fst (AList.update k v a) = map fst a" using k by (rule update_present_keys)
  have "fst ` set b \<subseteq> fst ` set (AList.update k v a)"
    using Cons.prems by (auto simp: AList.dom_update)
  then have "map fst (merge_declarations (AList.update k v a) b) = map fst (AList.update k v a)"
    by (rule Cons.IH)
  then show ?case using m by (simp add: merge_declarations_def x)
qed

lemma foldl_merge_keys:
  "fst ` set (foldl merge_declarations d L) = fst ` set d \<union> (\<Union>b \<in> set L. fst ` set b)"
  by (induction L arbitrary: d) (auto simp: merge_declarations_keys)

lemma foldl_merge_same_keys:
  "(\<And>b. b \<in> set L \<Longrightarrow> fst ` set b \<subseteq> fst ` set d) \<Longrightarrow>
   map fst (foldl merge_declarations d L) = map fst d"
proof (induction L arbitrary: d)
  case Nil
  then show ?case by simp
next
  case (Cons b L)
  have same: "map fst (merge_declarations d b) = map fst d"
    using Cons.prems by (intro merge_declarations_same_keys) simp
  then have "fst ` set (merge_declarations d b) = fst ` set d" by (metis image_set)
  then have "map fst (foldl merge_declarations (merge_declarations d b) L)
             = map fst (merge_declarations d b)"
    using Cons.prems by (intro Cons.IH) simp
  then show ?case using same by simp
qed

lemma foldl_merge_distinct:
  "distinct (map fst d) \<Longrightarrow> distinct (map fst (foldl merge_declarations d L))"
  by (induction L arbitrary: d) (simp_all add: merge_declarations_distinct)

lemma foldl_merge_map_of:
  "list_all (\<lambda>b. distinct (map fst b)) L \<Longrightarrow>
   map_of (foldl merge_declarations d L) = foldl (\<lambda>m b. m ++ map_of b) (map_of d) L"
  by (induction L arbitrary: d) (simp_all add: merge_declarations_map_of)

lemma foldl_map_add: 
  "foldl (\<lambda>m b. m ++ map_of b) m L = m ++ foldl (\<lambda>m b. m ++ map_of b) Map.empty L"
proof (induction L arbitrary: m)
  case Nil
  then show ?case by simp
next
  case (Cons b L)
  have "foldl (\<lambda>m b. m ++ map_of b) (m ++ map_of b) L
        = (m ++ map_of b) ++ foldl (\<lambda>m b. m ++ map_of b) Map.empty L"
    by (rule Cons.IH)
  moreover have "foldl (\<lambda>m b. m ++ map_of b) (Map.empty ++ map_of b) L
        = (Map.empty ++ map_of b) ++ foldl (\<lambda>m b. m ++ map_of b) Map.empty L"
    by (rule Cons.IH)
  ultimately show ?case by simp
qed

lemma foldl_merge_idem:
  assumes d: "distinct (map fst d)" and L: "list_all (\<lambda>b. distinct (map fst b)) L"
  shows "foldl merge_declarations (foldl merge_declarations d L) L = foldl merge_declarations d L"
proof (rule alist_eqI)
  let ?M = "foldl merge_declarations d L"
  let ?B = "foldl (\<lambda>m b. m ++ map_of b) Map.empty L"
  show "distinct (map fst (foldl merge_declarations ?M L))"
    using d by (intro foldl_merge_distinct)
  show "map fst (foldl merge_declarations ?M L) = map fst ?M"
    by (rule foldl_merge_same_keys) (auto simp: foldl_merge_keys)
  have "map_of (foldl merge_declarations ?M L) = (map_of d ++ ?B) ++ ?B"
    using L by (simp add: foldl_merge_map_of) (metis foldl_map_add)
  also have "\<dots> = map_of d ++ ?B"
    by (rule ext) (simp add: map_add_def split: option.split)
  also have "\<dots> = map_of ?M" using L by (simp add: foldl_merge_map_of) (metis foldl_map_add)
  finally show "map_of (foldl merge_declarations ?M L) = map_of ?M" .
qed

lemma foldl_foldl_concat:
  "foldl (\<lambda>q s. foldl f q (g s)) p ss = foldl f p (concat (map g ss))"
  by (induction ss arbitrary: p) simp_all

lemma pull_stores_refs: "pull_stores p = foldl add_rule p (store_refs p)"
proof -
  have "pull_stores p = foldl (\<lambda>q s. foldl add_rule q (rules s)) p (map snd (stores p))"
    by (simp add: pull_stores_def add_rules_def get_all_rules_def)
  also have "\<dots> = foldl add_rule p (concat (map rules (map snd (stores p))))"
    by (rule foldl_foldl_concat)
  also have "concat (map rules (map snd (stores p))) = store_refs p"
    by (simp add: store_refs_def get_all_rules_def comp_def case_prod_unfold)
  finally show ?thesis .
qed

lemma valid_stores_refs:
  "valid_stores p \<Longrightarrow> list_all (\<lambda>r. r < length (heap p)) (store_refs p)"
  by (auto simp: valid_stores_def store_refs_def get_all_rules_def list_all_iff)

lemma new_entries_nil:
  "(\<And>r. r \<in> set rs \<Longrightarrow> selector (h ! r) \<in> set ks) \<Longrightarrow> new_entries h ks rs = []"
  by (induction rs) simp_all

lemma add_rule_key: "selector (heap p ! r) \<in> fst ` set (css_rules (add_rule p r))"
proof (cases "map_of (css_rules p) (selector (heap p ! r))")
  case None
  then show ?thesis by (simp add: add_rule_def AList.dom_update)
next
  case (Some e)
  then have "(selector (heap p ! r), e) \<in> set (css_rules p)" by (rule map_of_SomeD)
  then show ?thesis using Some by (force simp: add_rule_def)
qed

lemma feed_keys:
  "r \<in> set rs \<Longrightarrow> selector (heap p ! r) \<in> fst ` set (css_rules (foldl add_rule p rs))"
proof (induction rs arbitrary: p)
  case Nil
  then show ?case by simp
next
  case (Cons a rs)
  show ?case
  proof (cases "r = a")
    case True
    have "selector (heap p ! a) \<in> fst ` set (css_rules (add_rule p a))" by (rule add_rule_key)
    then show ?thesis
      using True foldl_add_rule_css_rules_mono[of "add_rule p a" rs] by auto
  next
    case False
    then have "r \<in> set rs" using Cons.prems by simp
    from Cons.IH[OF this, of "add_rule p a"] show ?thesis by (simp add: add_rule_selector)
  qed
qed

lemma combine_loop_heap:
  "combine_loop rest sj p = Some p' \<Longrightarrow> valid_processor p \<Longrightarrow> valid_heap p \<Longrightarrow>
   valid_heap p' \<and> length (heap p) \<le> length (heap p')
   \<and> take (length (heap p)) (heap p') = heap p"
proof (induction rest arbitrary: sj p)
  case Nil
  then show ?case by simp
next
  case (Cons e rest)
  obtain sel json where e: "e = (sel, json)" by (cases e)
  show ?case
  proof (cases "length (array_keys sj json) \<le> 1")
    case True
    then have "combine_loop rest sj p = Some p'" using Cons.prems(1) by (simp add: e)
    then show ?thesis using Cons.prems(2,3) by (rule Cons.IH)
  next
    case False
    show ?thesis
    proof (cases "map_of (css_rules p) sel")
      case None
      then show ?thesis using Cons.prems(1) False by (simp add: e)
    next
      case (Some r)
      let ?G = "array_keys sj json"
      let ?k = "implode '','' ?G"
      let ?x = "new_css_rule ?k (declarations (heap p ! r))"
      let ?p = "p\<lparr>heap := heap p @ [?x],
                  css_rules := AList.update ?k (length (heap p)) (unset_all ?G (css_rules p))\<rparr>"
      have run: "combine_loop rest (unset_all ?G sj) ?p = Some p'"
        using Cons.prems(1) False Some by (simp add: e Let_def)
      have v: "valid_processor ?p" using Cons.prems(2) by (rule valid_step)
      have "(sel, r) \<in> set (css_rules p)" using Some by (rule map_of_SomeD)
      then have "r < length (heap p)"
        using Cons.prems(2) by (auto simp: valid_processor_def list_all_iff)
      then have "distinct (map fst (declarations ?x))"
        using Cons.prems(3) by (simp add: valid_heap_def list_all_length new_css_rule_def)
      then have vh: "valid_heap ?p" using Cons.prems(3) by (simp add: valid_heap_def)
      from Cons.IH[OF run v vh]
      have a: "valid_heap p'" and b: "Suc (length (heap p)) \<le> length (heap p')"
        and c: "take (Suc (length (heap p))) (heap p') = heap p @ [?x]" by simp_all
      have "take (length (heap p)) (take (Suc (length (heap p))) (heap p')) = heap p"
        unfolding c by simp
      then have "take (length (heap p)) (heap p') = heap p" by (simp add: min_def)
      then show ?thesis using a b by simp
    qed
  qed
qed

lemma nth_of_take: "take n ys = xs \<Longrightarrow> i < length xs \<Longrightarrow> ys ! i = xs ! i"
  by (metis length_take min_less_iff_conj nth_take)

lemma repull_unchanged:
  assumes v: "valid_processor p" and vh: "valid_heap p"
    and refs: "list_all (\<lambda>r. r < length (heap p)) rs"
    and v1: "valid_processor p1" and vh1: "valid_heap p1"
    and ext: "take (length (heap p)) (heap p1) = heap (foldl add_rule p rs)"
    and len: "length (heap p) \<le> length (heap p1)"
    and kept: "\<And>r. r \<in> set rs \<Longrightarrow>
                 map_of (css_rules p1) (selector (heap p ! r))
                 = map_of (css_rules (foldl add_rule p rs)) (selector (heap p ! r))"
  shows "working_set (foldl add_rule p1 rs) = working_set p1"
proof -
  define q where "q = foldl add_rule p rs"
  define q1 where "q1 = foldl add_rule p1 rs"
  have lenq: "length (heap q) = length (heap p)" and vq: "valid_processor q"
    using foldl_add_rule_valid[OF v refs] by (simp_all add: q_def)
  have old: "heap p1 ! x = heap q ! x" if "x < length (heap p)" for x
    using ext that lenq unfolding q_def[symmetric] by (intro nth_of_take[of "length (heap p)"]) simp_all
  have selq: "selector (heap q ! x) = selector (heap p ! x)" for x
    by (simp add: q_def foldl_add_rule_selector)
  have refs1: "list_all (\<lambda>r. r < length (heap p1)) rs"
    using refs len by (auto simp: list_all_iff)
  have r_lt: "r < length (heap p)" if "r \<in> set rs" for r
    using refs that by (simp add: list_all_iff)
  have sel1: "selector (heap p1 ! r) = selector (heap p ! r)" if "r \<in> set rs" for r
    using old[OF r_lt[OF that]] selq by simp
  from feed_rules[OF v vh refs]
  have q_rules: "css_rules q = css_rules p @ new_entries (heap p) (map fst (css_rules p)) rs"
    and q_heap: "\<And>x. x < length (heap p) \<Longrightarrow>
                   heap q ! x = (if x \<in> snd ` set (css_rules q) then merged_rule (heap p) rs x
                                 else heap p ! x)"
    unfolding q_def by auto
  have key1: "selector (heap p1 ! r) \<in> set (map fst (css_rules p1))" if r: "r \<in> set rs" for r
  proof -
    have "selector (heap p ! r) \<in> fst ` set (css_rules q)"
      unfolding q_def using r by (rule feed_keys)
    from map_of_in_keys[OF this] obtain e where "map_of (css_rules q) (selector (heap p ! r)) = Some e" ..
    then have "map_of (css_rules p1) (selector (heap p ! r)) = Some e"
      using kept[OF r] by (simp add: q_def)
    then have "(selector (heap p ! r), e) \<in> set (css_rules p1)" by (rule map_of_SomeD)
    then show ?thesis using sel1[OF r] by force
  qed
  from feed_rules[OF v1 vh1 refs1]
  have q1_rules: "css_rules q1 = css_rules p1"
    and q1_heap: "\<And>x. x < length (heap p1) \<Longrightarrow>
                   heap q1 ! x = (if x \<in> snd ` set (css_rules q1) then merged_rule (heap p1) rs x
                                  else heap p1 ! x)"
    unfolding q1_def using new_entries_nil[of rs "heap p1" "map fst (css_rules p1)", OF key1]
    by auto
  have stable: "merged_rule (heap p1) rs x = heap p1 ! x" if m: "(k, x) \<in> set (css_rules p1)" for k x
  proof (cases "filter (\<lambda>r. selector (heap p1 ! r) = selector (heap p1 ! x) \<and> r \<noteq> x) rs = []")
    case True
    then show ?thesis by (simp add: merged_rule_def)
  next
    case False
    then obtain r where r: "r \<in> set rs" "selector (heap p1 ! r) = selector (heap p1 ! x)" "r \<noteq> x"
      by (auto simp: filter_empty_conv)
    have kx: "selector (heap p1 ! x) = k" using v1 m by (rule valid_entry_selector)
    then have k: "k = selector (heap p ! r)" using r sel1 by simp
    have "map_of (css_rules p1) k = Some x" using v1 m by (simp add: valid_processor_def)
    then have "map_of (css_rules q) k = Some x" using kept[OF r(1)] k by (simp add: q_def)
    then have mq: "(k, x) \<in> set (css_rules q)" by (rule map_of_SomeD)
    then have xE: "x \<in> snd ` set (css_rules q)" by force
    have x_lt: "x < length (heap p)"
      using vq mq lenq by (auto simp: valid_processor_def list_all_iff)
    have selx: "selector (heap p1 ! x) = selector (heap p ! x)" using old[OF x_lt] selq by simp
    have px: "heap p1 ! x = merged_rule (heap p) rs x" using old[OF x_lt] q_heap[OF x_lt] xE by simp
    have same: "declarations (heap p1 ! r') = declarations (heap p ! r')"
      if r': "r' \<in> set rs" "selector (heap p ! r') = selector (heap p ! x)" "r' \<noteq> x" for r'
    proof -
      have "r' \<notin> snd ` set (css_rules q)"
      proof
        assume "r' \<in> snd ` set (css_rules q)"
        then have "r' = x" using vq xE r'(2) by (intro valid_entries_unique[of q r' x]) (simp_all add: selq)
        then show False using r'(3) by simp
      qed
      then show ?thesis using old[OF r_lt[OF r'(1)]] q_heap[OF r_lt[OF r'(1)]] by simp
    qed
    let ?L = "map (\<lambda>r. declarations (heap p ! r))
               (filter (\<lambda>r. selector (heap p ! r) = selector (heap p ! x) \<and> r \<noteq> x) rs)"
    have m1: "merged_rule (heap p1) rs x
              = (heap p1 ! x)\<lparr>declarations := foldl merge_declarations (declarations (heap p1 ! x)) ?L\<rparr>"
      by (rule merged_rule_eq) (simp_all add: sel1 selx same)
    have dx: "distinct (map fst (declarations (heap p ! x)))"
      using vh x_lt by (simp add: valid_heap_def list_all_length)
    have dr: "distinct (map fst (declarations (heap p ! r')))" if "r' \<in> set rs" for r'
      using vh r_lt[OF that] by (simp add: valid_heap_def list_all_length)
    have dL: "list_all (\<lambda>b. distinct (map fst b)) ?L"
      by (auto simp: list_all_iff dr)
    have idem: "foldl merge_declarations (foldl merge_declarations (declarations (heap p ! x)) ?L) ?L
                = foldl merge_declarations (declarations (heap p ! x)) ?L"
      using dx dL by (rule foldl_merge_idem)
    have px': "heap p1 ! x
               = (heap p ! x)\<lparr>declarations := foldl merge_declarations (declarations (heap p ! x)) ?L\<rparr>"
      unfolding px merged_rule_def ..
    show ?thesis unfolding m1 unfolding px' using idem by simp
  qed
  have "working_set q1 = map (\<lambda>(k, x). (k, heap q1 ! x)) (css_rules p1)"
    by (simp add: working_set_def q1_rules)
  also have "\<dots> = map (\<lambda>(k, x). (k, heap p1 ! x)) (css_rules p1)"
  proof (rule map_cong[OF refl])
    fix e assume e: "e \<in> set (css_rules p1)"
    obtain k x where kx: "e = (k, x)" by (cases e)
    have x_lt: "x < length (heap p1)"
      using v1 e kx by (auto simp: valid_processor_def list_all_iff)
    have "x \<in> snd ` set (css_rules q1)" using e kx q1_rules by force
    then have "heap q1 ! x = heap p1 ! x" using q1_heap[OF x_lt] stable[of k x] e kx by simp
    then show "(case e of (k, x) \<Rightarrow> (k, heap q1 ! x)) = (case e of (k, x) \<Rightarrow> (k, heap p1 ! x))"
      by (simp add: kx)
  qed
  finally show ?thesis by (simp add: working_set_def q1_def)
qed

lemma add_rules_closed_form:
  assumes v: "valid_processor p" and h: "valid_heap p"
    and refs: "list_all (\<lambda>r. r < length (heap p)) (rule_refs arg)"
  shows "working_set (add_rules p arg)
         = map (\<lambda>(k, x). (k, merged_rule (heap p) (rule_refs arg) x))
             (css_rules p @ new_entries (heap p) (map fst (css_rules p)) (rule_refs arg))"
proof -
  let ?rs = "rule_refs arg"
  let ?q = "foldl add_rule p ?rs"
  have q: "add_rules p arg = ?q" by (simp add: add_rules_def rule_refs_def)
  from foldl_add_rule_valid[OF v refs]
  have vq: "valid_processor ?q" and len: "length (heap ?q) = length (heap p)" by simp_all
  from feed_rules[OF v h refs]
  have rules: "css_rules ?q = css_rules p @ new_entries (heap p) (map fst (css_rules p)) ?rs"
    and objs: "\<And>x. x < length (heap p) \<Longrightarrow>
                 heap ?q ! x = (if x \<in> snd ` set (css_rules ?q) then merged_rule (heap p) ?rs x
                                else heap p ! x)"
    by auto
  have "working_set ?q = map (\<lambda>(k, x). (k, merged_rule (heap p) ?rs x)) (css_rules ?q)"
    unfolding working_set_def
  proof (rule map_cong[OF refl])
    fix e assume e: "e \<in> set (css_rules ?q)"
    obtain k x where kx: "e = (k, x)" by (cases e)
    have "x < length (heap p)"
      using vq e kx len by (auto simp: valid_processor_def list_all_iff)
    moreover have "x \<in> snd ` set (css_rules ?q)" using e kx by force
    ultimately have "heap ?q ! x = merged_rule (heap p) ?rs x" using objs by simp
    then show "(case e of (k, r) \<Rightarrow> (k, heap ?q ! r))
             = (case e of (k, x) \<Rightarrow> (k, merged_rule (heap p) ?rs x))"
      by (simp add: kx)
  qed
  then show ?thesis unfolding q rules .
qed

lemma store_refs_cong: "stores p' = stores p \<Longrightarrow> store_refs p' = store_refs p"
  by (simp add: store_refs_def)

lemma stores_kept_no_rules:
  "list_all (\<lambda>(n, store). rules store = []) (stores p) \<Longrightarrow> stores_kept p p1"
  by (simp add: stores_kept_def store_refs_def get_all_rules_def list_all_iff case_prod_unfold)

text \<open>
  C5. \<open>add_rules\<close> keeps one rule per selector: on a well-formed processor, given a
  single rule or a sequence of rules (directly, or from the attached stores through
  \<open>pull_stores\<close>), the keys of the working set stay pairwise different and every
  entry stays filed under its own selector. A rule whose selector is present is merged
  into the existing entry where it stands, the values of the new rule winning; a rule
  with a new selector is appended. Adding \<open>.a {color: red}\<close> and then
  \<open>.a {color: blue}\<close> leaves \<open>.a\<close> with exactly \<open>color: blue\<close>.
  A sequence is fed rule by rule, in its order and to its end: the empty sequence
  changes nothing, and a sequence that starts with \<open>r0\<close> is \<open>r0\<close> alone followed by
  the rest. The pull of the stores feeds the rules of all the stores, in registration
  order, as one sequence. Hence, when the declarations of the rule objects have
  pairwise different properties, the working set after a sequence (or after the pull)
  is known in full: the entries that were there, followed by one new entry for each
  selector first met in the sequence, in the order of the sequence; and the rule of
  every entry has received, in the order of the sequence, the declarations of all the
  other rules of the sequence with its selector.
\<close>

theorem add_rules_one_rule_per_selector:
  "valid_processor (new_processor objects)
   \<and> (valid_processor p \<and> list_all (\<lambda>r. r < length (heap p)) (rule_refs arg)
      \<longrightarrow> valid_processor (add_rules p arg))
   \<and> (valid_processor p \<and> valid_stores p \<longrightarrow> valid_processor (pull_stores p))
   \<and> (valid_processor p \<and> map_of (css_rules p) (selector (heap p ! r)) = Some e
      \<longrightarrow> working_set (add_rules p (Rule r))
          = map (\<lambda>(k, rule). if k = selector (heap p ! r)
                   then (k, add_declarations rule (declarations (heap p ! r))) else (k, rule))
              (working_set p))
   \<and> (valid_processor p \<and> r' < length (heap p)
        \<and> map_of (css_rules p) (selector (heap p ! r')) = None
      \<longrightarrow> working_set (add_rules p (Rule r'))
          = working_set p @ [(selector (heap p ! r'), heap p ! r')])
   \<and> (distinct (map fst ds) \<longrightarrow>
        map_of (declarations (add_declarations rule ds)) = map_of (declarations rule) ++ map_of ds)
   \<and> working_set (add_rules (new_processor red_blue_objects) (Rules [0, 1]))
       = [(''.a'', \<lparr>selector = ''.a'', declarations = [(''color'', ''blue'')]\<rparr>)]
   \<and> add_rules p (Rules []) = p
   \<and> add_rules p (Rules (r0 # rs)) = add_rules (add_rules p (Rule r0)) (Rules rs)
   \<and> pull_stores p = add_rules p (Rules (store_refs p))
   \<and> (valid_processor p \<and> valid_heap p \<and> list_all (\<lambda>r. r < length (heap p)) (rule_refs arg)
      \<longrightarrow> working_set (add_rules p arg)
          = map (\<lambda>(k, x). (k, merged_rule (heap p) (rule_refs arg) x))
              (css_rules p @ new_entries (heap p) (map fst (css_rules p)) (rule_refs arg)))
   \<and> (valid_processor p \<and> valid_heap p \<and> valid_stores p
      \<longrightarrow> working_set (pull_stores p)
          = map (\<lambda>(k, x). (k, merged_rule (heap p) (store_refs p) x))
              (css_rules p @ new_entries (heap p) (map fst (css_rules p)) (store_refs p)))"
proof -
  have 1: "valid_processor p \<and> list_all (\<lambda>r. r < length (heap p)) (rule_refs arg)
      \<longrightarrow> valid_processor (add_rules p arg)"
    using foldl_add_rule_valid[of p "rule_refs arg"] by (simp add: add_rules_def rule_refs_def)
  have 2: "valid_processor p \<and> map_of (css_rules p) (selector (heap p ! r)) = Some e
      \<longrightarrow> working_set (add_rules p (Rule r))
          = map (\<lambda>(k, rule). if k = selector (heap p ! r)
                   then (k, add_declarations rule (declarations (heap p ! r))) else (k, rule))
              (working_set p)"
    using add_rule_present(2)[of p r e] by (simp add: add_rules_def)
  have 3: "valid_processor p \<and> r' < length (heap p)
        \<and> map_of (css_rules p) (selector (heap p ! r')) = None
      \<longrightarrow> working_set (add_rules p (Rule r'))
          = working_set p @ [(selector (heap p ! r'), heap p ! r')]"
    using add_rule_fresh(1,2)[of p r'] by (simp add: add_rules_def working_set_def)
  have 4: "distinct (map fst ds) \<longrightarrow>
        map_of (declarations (add_declarations rule ds)) = map_of (declarations rule) ++ map_of ds"
    by (simp add: add_declarations_def merge_declarations_map_of)
  have 5: "working_set (add_rules (new_processor red_blue_objects) (Rules [0, 1]))
       = [(''.a'', \<lparr>selector = ''.a'', declarations = [(''color'', ''blue'')]\<rparr>)]"
    by (simp add: red_blue_objects_def eval_defs)
  have 6: "valid_processor p \<and> valid_stores p \<longrightarrow> valid_processor (pull_stores p)"
    using pull_stores_valid(1)[of p] by simp
  have 0: "valid_processor (new_processor objects)"
    by (simp add: valid_processor_def new_processor_def)
  have 7: "add_rules p (Rules []) = p" by (simp add: add_rules_def)
  have 8: "add_rules p (Rules (r0 # rs)) = add_rules (add_rules p (Rule r0)) (Rules rs)"
    by (simp add: add_rules_def)
  have 9: "pull_stores p = add_rules p (Rules (store_refs p))"
    by (simp add: pull_stores_refs add_rules_def)
  have 10: "valid_processor p \<and> valid_heap p \<and> list_all (\<lambda>r. r < length (heap p)) (rule_refs arg)
      \<longrightarrow> working_set (add_rules p arg)
          = map (\<lambda>(k, x). (k, merged_rule (heap p) (rule_refs arg) x))
              (css_rules p @ new_entries (heap p) (map fst (css_rules p)) (rule_refs arg))"
    using add_rules_closed_form[of p arg] by simp
  have 11: "valid_processor p \<and> valid_heap p \<and> valid_stores p
      \<longrightarrow> working_set (pull_stores p)
          = map (\<lambda>(k, x). (k, merged_rule (heap p) (store_refs p) x))
              (css_rules p @ new_entries (heap p) (map fst (css_rules p)) (store_refs p))"
    using add_rules_closed_form[of p "Rules (store_refs p)"] valid_stores_refs[of p]
    by (simp add: 9 rule_refs_def)
  show ?thesis
    by (intro conjI) (fact 0, fact 1, fact 6, fact 2, fact 3, fact 4, fact 5, fact 7, fact 8, fact 9,
      fact 10, fact 11)
qed

theorem add_rules_one_rule_per_selector_witness:
  "valid_processor red_blue_processor
   \<and> valid_stores red_blue_processor
   \<and> valid_heap red_blue_processor
   \<and> list_all (\<lambda>r. r < length (heap red_blue_processor)) (rule_refs (Rules [1, 2]))
   \<and> map_of (css_rules red_blue_processor) (selector (heap red_blue_processor ! 1)) = Some 0
   \<and> map_of (css_rules red_blue_processor) (selector (heap red_blue_processor ! 2)) = None
   \<and> distinct (map fst [(''color'', ''blue'')])
   \<and> valid_processor (add_rules red_blue_processor (Rules [1, 2]))
   \<and> valid_processor (pull_stores red_blue_processor)
   \<and> working_set (add_rules red_blue_processor (Rule 1))
       = [(''.a'', \<lparr>selector = ''.a'', declarations = [(''color'', ''blue'')]\<rparr>)]
   \<and> working_set (add_rules red_blue_processor (Rule 2))
       = [(''.a'', \<lparr>selector = ''.a'', declarations = [(''color'', ''red'')]\<rparr>),
          (''.b'', \<lparr>selector = ''.b'', declarations = [(''color'', ''green'')]\<rparr>)]
   \<and> map_of (declarations (add_declarations
          \<lparr>selector = ''.a'', declarations = [(''color'', ''red'')]\<rparr> [(''color'', ''blue'')]))
       = map_of [(''color'', ''red'')] ++ map_of [(''color'', ''blue'')]
   \<and> add_rules red_blue_processor (Rules [1, 2])
       = add_rules (add_rules red_blue_processor (Rule 1)) (Rules [2])
   \<and> pull_stores red_blue_processor = add_rules red_blue_processor (Rules [1, 2])
   \<and> working_set (add_rules red_blue_processor (Rules [1, 2]))
       = [(''.a'', \<lparr>selector = ''.a'', declarations = [(''color'', ''blue'')]\<rparr>),
          (''.b'', \<lparr>selector = ''.b'', declarations = [(''color'', ''green'')]\<rparr>)]
   \<and> working_set (pull_stores red_blue_processor)
       = [(''.a'', \<lparr>selector = ''.a'', declarations = [(''color'', ''blue'')]\<rparr>),
          (''.b'', \<lparr>selector = ''.b'', declarations = [(''color'', ''green'')]\<rparr>)]"
proof -
  have v: "valid_processor red_blue_processor"
    by (simp add: red_blue_processor_def red_blue_objects_def valid_processor_def eval_defs)
  have s: "valid_stores red_blue_processor"
    by (simp add: red_blue_processor_def red_blue_objects_def valid_stores_def eval_defs)
  have h: "valid_heap red_blue_processor"
    by (simp add: red_blue_processor_def red_blue_objects_def valid_heap_def eval_defs)
  have refs: "list_all (\<lambda>r. r < length (heap red_blue_processor)) (rule_refs (Rules [1, 2]))"
    by (simp add: red_blue_processor_def red_blue_objects_def rule_refs_def eval_defs)
  have sr: "store_refs red_blue_processor = [1, 2]"
    by (simp add: red_blue_processor_def red_blue_objects_def store_refs_def eval_defs)
  have m1: "map_of (css_rules red_blue_processor) (selector (heap red_blue_processor ! 1)) = Some 0"
    by (simp add: red_blue_processor_def red_blue_objects_def eval_defs)
  have m2: "map_of (css_rules red_blue_processor) (selector (heap red_blue_processor ! 2)) = None"
    by (simp add: red_blue_processor_def red_blue_objects_def eval_defs)
  have ws: "working_set red_blue_processor
            = [(''.a'', \<lparr>selector = ''.a'', declarations = [(''color'', ''red'')]\<rparr>)]"
    by (simp add: red_blue_processor_def red_blue_objects_def eval_defs)
  have hp: "heap red_blue_processor = red_blue_objects"
    by (simp add: red_blue_processor_def red_blue_objects_def eval_defs)
  have cr: "css_rules red_blue_processor = [(''.a'', 0)]"
    by (simp add: red_blue_processor_def red_blue_objects_def eval_defs)
  note t = add_rules_one_rule_per_selector
    [of "[]" red_blue_processor "Rules [1, 2]" 1 0 2
        "[(''color'', ''blue'')]" "\<lparr>selector = ''.a'', declarations = [(''color'', ''red'')]\<rparr>"
        1 "[2]"]
  note t1 = t[THEN conjunct2, THEN conjunct1]
  note t2 = t[THEN conjunct2, THEN conjunct2, THEN conjunct1]
  note t3 = t[THEN conjunct2, THEN conjunct2, THEN conjunct2, THEN conjunct1]
  note t4 = t[THEN conjunct2, THEN conjunct2, THEN conjunct2, THEN conjunct2, THEN conjunct1]
  note t5 = t[THEN conjunct2, THEN conjunct2, THEN conjunct2, THEN conjunct2, THEN conjunct2,
              THEN conjunct1]
  note t8 = t[THEN conjunct2, THEN conjunct2, THEN conjunct2, THEN conjunct2, THEN conjunct2,
              THEN conjunct2, THEN conjunct2, THEN conjunct2, THEN conjunct1]
  note t9 = t[THEN conjunct2, THEN conjunct2, THEN conjunct2, THEN conjunct2, THEN conjunct2,
              THEN conjunct2, THEN conjunct2, THEN conjunct2, THEN conjunct2, THEN conjunct1]
  note t10 = t[THEN conjunct2, THEN conjunct2, THEN conjunct2, THEN conjunct2, THEN conjunct2,
               THEN conjunct2, THEN conjunct2, THEN conjunct2, THEN conjunct2, THEN conjunct2,
               THEN conjunct1]
  note t11 = t[THEN conjunct2, THEN conjunct2, THEN conjunct2, THEN conjunct2, THEN conjunct2,
               THEN conjunct2, THEN conjunct2, THEN conjunct2, THEN conjunct2, THEN conjunct2,
               THEN conjunct2]
  have a1: "valid_processor (add_rules red_blue_processor (Rules [1, 2]))"
    using t1 v refs by simp
  have a2: "valid_processor (pull_stores red_blue_processor)"
    using t2 v s by simp
  have a3: "working_set (add_rules red_blue_processor (Rule 1))
       = [(''.a'', \<lparr>selector = ''.a'', declarations = [(''color'', ''blue'')]\<rparr>)]"
    using t3 v m1
    by (simp add: ws hp red_blue_objects_def add_declarations_def merge_declarations_def)
  have a4: "working_set (add_rules red_blue_processor (Rule 2))
       = [(''.a'', \<lparr>selector = ''.a'', declarations = [(''color'', ''red'')]\<rparr>),
          (''.b'', \<lparr>selector = ''.b'', declarations = [(''color'', ''green'')]\<rparr>)]"
    using t4 v m2 by (simp add: ws hp red_blue_objects_def)
  have a5: "map_of (declarations (add_declarations
          \<lparr>selector = ''.a'', declarations = [(''color'', ''red'')]\<rparr> [(''color'', ''blue'')]))
       = map_of [(''color'', ''red'')] ++ map_of [(''color'', ''blue'')]"
    using t5 by simp
  have a8: "add_rules red_blue_processor (Rules [1, 2])
       = add_rules (add_rules red_blue_processor (Rule 1)) (Rules [2])"
    by (rule t8)
  have a9: "pull_stores red_blue_processor = add_rules red_blue_processor (Rules [1, 2])"
    using t9 by (simp only: sr)
  have a10: "working_set (add_rules red_blue_processor (Rules [1, 2]))
       = [(''.a'', \<lparr>selector = ''.a'', declarations = [(''color'', ''blue'')]\<rparr>),
          (''.b'', \<lparr>selector = ''.b'', declarations = [(''color'', ''green'')]\<rparr>)]"
    using t10 v h refs
    by (simp add: hp cr rule_refs_def merged_rule_def red_blue_objects_def merge_declarations_def)
  have a11: "working_set (pull_stores red_blue_processor)
       = [(''.a'', \<lparr>selector = ''.a'', declarations = [(''color'', ''blue'')]\<rparr>),
          (''.b'', \<lparr>selector = ''.b'', declarations = [(''color'', ''green'')]\<rparr>)]"
    using t11 v h s
    by (simp add: sr hp cr merged_rule_def red_blue_objects_def merge_declarations_def)
  have d: "distinct (map fst [(''color'', ''blue'')])" by simp
  show ?thesis
    by (intro conjI) (fact v, fact s, fact h, fact refs, fact m1, fact m2, fact d, fact a1, fact a2,
      fact a3, fact a4, fact a5, fact a8, fact a9, fact a10, fact a11)
qed

subsection \<open>Calling get_css twice\<close>

text \<open>
  C3, as the code has it. On a well-formed processor whose rule objects have
  declarations with pairwise different properties (they are PHP arrays), an optimized
  \<open>get_css\<close> returns; and if that call neither combined nor overwrote a rule of the attached
  stores (every selector of a store rule is still filed with its rule object, see
  \<open>stores_kept\<close>), then a second optimized \<open>get_css\<close> on the processor that the
  first call left returns the same string. The second call pulls the stores again: every
  store rule is merged into the entry of its selector, which already holds its
  declarations, so the working set is the one the first call left, and in it no two
  rules have the same encoding. A processor without stores, or whose stores hold no
  rule, is a case of this (\<open>stores_kept_no_rules\<close>).
\<close>

theorem get_css_twice_with_kept_store_rules:
  assumes v: "valid_processor p" and s: "valid_stores p" and h: "valid_heap p"
    and o: "opt \<noteq> Some False"
  shows "\<exists>css p1. get_css d \<lparr>optimize = opt, prettify = pr\<rparr> p = Some (css, p1)
           \<and> (stores_kept p p1 \<longrightarrow>
                (\<exists>p2. get_css d \<lparr>optimize = opt, prettify = pr\<rparr> p1 = Some (css, p2)))"
proof -
  let ?args = "\<lparr>optimize = opt, prettify = pr\<rparr>"
  obtain pretty where args: "wp_parse_args ?args (True, d) = (True, pretty)"
    using o by (cases opt) (auto simp: wp_parse_args_def)
  define rs where "rs = store_refs p"
  define q where "q = pull_stores p"
  have q: "q = foldl add_rule p rs" by (simp add: q_def rs_def pull_stores_refs)
  have refs: "list_all (\<lambda>r. r < length (heap p)) rs"
    unfolding rs_def using s by (rule valid_stores_refs)
  have vq: "valid_processor q" and lenq: "length (heap q) = length (heap p)"
    using foldl_add_rule_valid[OF v refs] by (simp_all add: q)
  have stq: "stores q = stores p" unfolding q_def using v s by (rule pull_stores_valid(2))
  have vhq: "valid_heap q" unfolding q using h by (rule foldl_add_rule_valid_heap)
  from combine_refines[OF vq] obtain p1 where p1:
    "combine_rules_selectors q = Some p1" "working_set p1 = combine_spec (working_set q)"
    "valid_processor p1" "stores p1 = stores q" by blast
  have run1: "get_css d ?args p = Some (build_css p1 pretty, p1)"
    using p1(1) by (simp add: get_css_def args q_def[symmetric])
  have loop: "combine_loop (selectors_json_of q) (selectors_json_of q) q = Some p1"
    using p1(1) by (simp add: combine_rules_selectors_def)
  from combine_loop_heap[OF loop vq vhq]
  have vh1: "valid_heap p1" and len1: "length (heap p) \<le> length (heap p1)"
    and ext: "take (length (heap p)) (heap p1) = heap (foldl add_rule p rs)"
    by (simp_all add: lenq q[symmetric])
  have second: "\<exists>p2. get_css d ?args p1 = Some (build_css p1 pretty, p2)" if kept: "stores_kept p p1"
  proof -
    have k: "map_of (css_rules p1) (selector (heap p ! r))
             = map_of (css_rules (foldl add_rule p rs)) (selector (heap p ! r))"
      if "r \<in> set rs" for r
      using kept that by (simp add: stores_kept_def list_all_iff rs_def pull_stores_refs)
    have pull1: "pull_stores p1 = foldl add_rule p1 rs"
      by (simp add: pull_stores_refs rs_def store_refs_cong[of p1 p] p1(4) stq)
    have ws: "working_set (pull_stores p1) = working_set p1"
      unfolding pull1 using v h refs p1(3) vh1 ext len1 k by (rule repull_unchanged)
    have refs1: "list_all (\<lambda>r. r < length (heap p1)) rs"
      using refs len1 by (auto simp: list_all_iff)
    have v1: "valid_processor (pull_stores p1)"
      unfolding pull1 using foldl_add_rule_valid[OF p1(3) refs1] by simp
    from combine_refines[OF v1] obtain p2 where p2:
      "combine_rules_selectors (pull_stores p1) = Some p2"
      "working_set p2 = combine_spec (working_set (pull_stores p1))" by blast
    have d0: "distinct (map fst (working_set q))"
      using vq by (simp add: valid_working_set_keys valid_processor_def)
    have same: "working_set p2 = working_set p1"
      unfolding p2(2) ws unfolding p1(2) using d0 by (rule combine_spec_idem)
    have "get_css d ?args p1 = Some (build_css p2 pretty, p2)"
      using p2(1) by (simp add: get_css_def args)
    moreover have "build_css p2 pretty = build_css p1 pretty"
      by (simp add: build_css_working_set same)
    ultimately show ?thesis by simp
  qed
  show ?thesis using run1 second by simp
qed

theorem get_css_twice_with_kept_store_rules_witness:
  "valid_processor plain_stores_processor \<and> valid_stores plain_stores_processor
   \<and> valid_heap plain_stores_processor \<and> Some True \<noteq> Some False
   \<and> get_css False \<lparr>optimize = Some True, prettify = Some False\<rparr> plain_stores_processor
       = Some (''.wp-1{margin: 0;}.wp-2{margin: 1px;}'', plain_stores_after_first)
   \<and> stores_kept plain_stores_processor plain_stores_after_first
   \<and> (\<exists>p2. get_css False \<lparr>optimize = Some True, prettify = Some False\<rparr> plain_stores_after_first
              = Some (''.wp-1{margin: 0;}.wp-2{margin: 1px;}'', p2))"
proof -
  have v: "valid_processor plain_stores_processor"
    by (simp add: plain_stores_processor_def valid_processor_def eval_defs)
  have s: "valid_stores plain_stores_processor"
    by (simp add: plain_stores_processor_def valid_stores_def eval_defs)
  have h: "valid_heap plain_stores_processor"
    by (simp add: plain_stores_processor_def valid_heap_def eval_defs)
  have o: "Some True \<noteq> Some False" by simp
  have run: "get_css False \<lparr>optimize = Some True, prettify = Some False\<rparr> plain_stores_processor
             = Some (''.wp-1{margin: 0;}.wp-2{margin: 1px;}'', plain_stores_after_first)"
    by (simp add: plain_stores_processor_def plain_stores_after_first_def eval_defs)
  have k: "stores_kept plain_stores_processor plain_stores_after_first"
    by (simp add: stores_kept_def store_refs_def plain_stores_processor_def
          plain_stores_after_first_def eval_defs)
  from get_css_twice_with_kept_store_rules[OF v s h o, of False "Some False"] run k
  have "\<exists>p2. get_css False \<lparr>optimize = Some True, prettify = Some False\<rparr> plain_stores_after_first
              = Some (''.wp-1{margin: 0;}.wp-2{margin: 1px;}'', p2)"
    by simp
  then show ?thesis using v s h run k by simp
qed

text \<open>
  C3 as stated fails when the first call combined a rule of the stores: every call
  pulls the rules of the stores again, and the second pass joins them to the rule that
  the first pass had combined. With the two stores of the end-to-end scenario the first
  call returns \<open>.wp-1,.wp-2{margin: 0;}\<close> and the second
  \<open>.wp-1,.wp-2,.wp-1,.wp-2{margin: 0;}\<close>.
\<close>

theorem second_call_differs_with_stores:
  "get_css False \<lparr>optimize = Some True, prettify = Some False\<rparr> two_stores_processor
     = Some (''.wp-1,.wp-2{margin: 0;}'', two_stores_after_first)
   \<and> map_option fst
         (get_css False \<lparr>optimize = Some True, prettify = Some False\<rparr> two_stores_after_first)
     = Some ''.wp-1,.wp-2,.wp-1,.wp-2{margin: 0;}''"
  by (simp add: two_stores_processor_def two_stores_after_first_def eval_defs)

subsection \<open>Where the combined rule goes\<close>

text \<open>
  C4, as the code has it. The groups of the pass are exactly the lists of selectors
  that share an encoding with at least one other selector, each group once, its members
  in first-seen order. When no combined selector collides with a key of the working set
  or with the combined selector of another group, the pass leaves the rules that belong
  to no group where they are, removes every member of every group, and appends one
  combined rule per group at the end of the working set, in the order in which the
  first members of the groups were met. The combined rule has the members joined with
  commas as its selector and carries the declarations of the first member.
\<close>

theorem combine_pass_appends_combined_rules:
  assumes v: "valid_processor p" and c: "collision_free (working_set p)"
  shows "(\<exists>p'. combine_rules_selectors p = Some p'
           \<and> working_set p'
             = filter (\<lambda>(k, rule). length (array_keys (encodings (working_set p)) (rule_json rule)) \<le> 1)
                 (working_set p)
               @ map (combined_rule (working_set p)) (combine_groups (encodings (working_set p))))
    \<and> set (combine_groups (encodings (working_set p)))
           = {array_keys (encodings (working_set p)) j |j.
                2 \<le> length (array_keys (encodings (working_set p)) j)}
    \<and> distinct (combine_groups (encodings (working_set p)))"
proof -
  let ?ws = "working_set p"
  let ?sj = "encodings ?ws"
  let ?Gs = "combine_groups ?sj"
  have d: "distinct (map fst ?ws)"
    using v by (simp add: valid_working_set_keys valid_processor_def)
  have de: "distinct (map fst ?sj)"
    using d by (simp add: encodings_def comp_def case_prod_unfold)
  note facts = combine_groups_facts[OF de]
  have "fst ` set ?sj = fst ` set ?ws" by (force simp: encodings_def)
  then have members: "set (concat ?Gs) \<subseteq> fst ` set ?ws"
    unfolding facts(3) by force
  have joins: "list_all (\<lambda>G. implode '','' G \<notin> fst ` set ?ws) ?Gs"
    and dj: "distinct (map (implode '','') ?Gs)"
    using c by (simp_all add: collision_free_def)
  have clear: "list_all (\<lambda>G. implode '','' G \<notin> set (concat ?Gs)) ?Gs"
    unfolding list_all_iff
  proof
    fix G assume "G \<in> set ?Gs"
    then have "implode '','' G \<notin> fst ` set ?ws" using joins by (simp add: list_all_iff)
    then show "implode '','' G \<notin> set (concat ?Gs)" using members by blast
  qed
  let ?A = "filter (\<lambda>(k, rule). k \<notin> set (concat ?Gs)) ?ws"
  have "combine_spec ?ws = foldl (store_combined ?ws) ?A ?Gs"
    unfolding combine_spec_def using facts(1,2) clear by (rule fold_group_step_closed)
  also have "\<dots> = foldl (\<lambda>a G. AList.update (fst (combined_rule ?ws G)) (snd (combined_rule ?ws G)) a)
                     ?A ?Gs"
    by (simp add: store_combined_def[abs_def])
  also have "\<dots> = ?A @ map (\<lambda>G. (fst (combined_rule ?ws G), snd (combined_rule ?ws G))) ?Gs"
  proof (rule foldl_update_fresh)
    show "distinct (map (\<lambda>G. fst (combined_rule ?ws G)) ?Gs)"
      using dj by (simp add: combined_rule_def)
    show "(\<lambda>G. fst (combined_rule ?ws G)) ` set ?Gs \<inter> fst ` set ?A = {}"
      using joins by (auto simp: combined_rule_def list_all_iff)
  qed
  also have "?A = filter (\<lambda>(k, rule). length (array_keys ?sj (rule_json rule)) \<le> 1) ?ws"
  proof (rule filter_cong[OF refl])
    fix x assume x: "x \<in> set ?ws"
    obtain k rule where kr: "x = (k, rule)" by (cases x)
    have "k \<in> set (concat ?Gs) \<longleftrightarrow> 2 \<le> length (array_keys ?sj (rule_json rule))"
      using d x unfolding kr by (rule member_of_group)
    then show "(case x of (k, rule) \<Rightarrow> k \<notin> set (concat ?Gs))
             = (case x of (k, rule) \<Rightarrow> length (array_keys ?sj (rule_json rule)) \<le> 1)"
      unfolding kr by (simp del: set_concat) arith
  qed
  finally have spec: "combine_spec ?ws
      = filter (\<lambda>(k, rule). length (array_keys ?sj (rule_json rule)) \<le> 1) ?ws
        @ map (combined_rule ?ws) ?Gs"
    by simp
  from combine_refines[OF v] spec
  have 1: "\<exists>p'. combine_rules_selectors p = Some p'
           \<and> working_set p'
             = filter (\<lambda>(k, rule). length (array_keys ?sj (rule_json rule)) \<le> 1) ?ws
               @ map (combined_rule ?ws) ?Gs"
    by auto
  have 2: "set ?Gs = {array_keys ?sj j |j. 2 \<le> length (array_keys ?sj j)}" by (rule facts(4))
  have 3: "distinct ?Gs" using facts(1,2) by (rule distinct_nonempty_concat)
  from 1 2 3 show ?thesis by (intro conjI)
qed




theorem combine_pass_appends_combined_rules_witness:
  "valid_processor abc_processor \<and> collision_free (working_set abc_processor)
   \<and> (\<exists>p'. combine_rules_selectors abc_processor = Some p'
         \<and> working_set p'
            = [(''.c'', \<lparr>selector = ''.c'', declarations = [(''color'', ''blue'')]\<rparr>),
               (''.a,.b'', \<lparr>selector = ''.a,.b'', declarations = [(''color'', ''red'')]\<rparr>)])
   \<and> combine_groups (encodings (working_set abc_processor)) = [[''.a'', ''.b'']]"
proof -
  have v: "valid_processor abc_processor"
    by (simp add: abc_processor_def valid_processor_def eval_defs)
  have g: "combine_groups (encodings (working_set abc_processor)) = [[''.a'', ''.b'']]"
    by (simp add: abc_processor_def combine_groups_def encodings_def eval_defs)
  have c: "collision_free (working_set abc_processor)"
    unfolding collision_free_def g by (simp add: abc_processor_def eval_defs)
  have e: "encodings (working_set abc_processor)
           = [(''.a'', rule_json \<lparr>selector = ''.a'', declarations = [(''color'', ''red'')]\<rparr>),
              (''.b'', rule_json \<lparr>selector = ''.b'', declarations = [(''color'', ''red'')]\<rparr>),
              (''.c'', rule_json \<lparr>selector = ''.c'', declarations = [(''color'', ''blue'')]\<rparr>)]"
    by (simp add: abc_processor_def encodings_def new_processor_def add_rules_def add_rule_def
        working_set_def Let_def)
  have w: "working_set abc_processor
     = [(''.a'', \<lparr>selector = ''.a'', declarations = [(''color'', ''red'')]\<rparr>),
        (''.b'', \<lparr>selector = ''.b'', declarations = [(''color'', ''red'')]\<rparr>),
        (''.c'', \<lparr>selector = ''.c'', declarations = [(''color'', ''blue'')]\<rparr>)]"
    by (simp add: abc_processor_def new_processor_def add_rules_def add_rule_def working_set_def
        Let_def)
  have kept: "filter (\<lambda>(k, rule). length (array_keys (encodings (working_set abc_processor))
                     (rule_json rule)) \<le> 1) (working_set abc_processor)
        = [(''.c'', \<lparr>selector = ''.c'', declarations = [(''color'', ''blue'')]\<rparr>)]"
    unfolding e unfolding w
    by (simp add: rule_json_def wp_json_encode_def ksort_def json_string_def json_escape_def
        array_keys_def)
  have comb: "map (combined_rule (working_set abc_processor)) [[''.a'', ''.b'']]
        = [(''.a,.b'', \<lparr>selector = ''.a,.b'', declarations = [(''color'', ''red'')]\<rparr>)]"
    unfolding w by (simp add: combined_rule_def declarations_of_def new_css_rule_def)
  from combine_pass_appends_combined_rules[OF v c]
  have "\<exists>p'. combine_rules_selectors abc_processor = Some p'
         \<and> working_set p'
            = [(''.c'', \<lparr>selector = ''.c'', declarations = [(''color'', ''blue'')]\<rparr>),
               (''.a,.b'', \<lparr>selector = ''.a,.b'', declarations = [(''color'', ''red'')]\<rparr>)]"
    unfolding g kept comb by simp
  then show ?thesis using v c g by simp
qed

text \<open>
  C4 as stated fails on the position: with the working set \<open>.a\<close>, \<open>.b\<close>, \<open>.c\<close>,
  where \<open>.a\<close> and \<open>.b\<close> took the first two places, the combined rule \<open>.a,.b\<close> comes
  after \<open>.c\<close>, not in the place of its members.
\<close>

theorem combined_rule_goes_last:
  "map fst (working_set abc_processor) = [''.a'', ''.b'', ''.c'']
   \<and> map_option (map fst \<circ> working_set) (combine_rules_selectors abc_processor)
       = Some [''.c'', ''.a,.b'']"
  by (simp add: abc_processor_def eval_defs)

subsection \<open>A combined selector that is already a key\<close>

text \<open>
  C10, as the code has it. Let the working set (once the stores are pulled) hold a group
  of two or more selectors with the same encoding, and also a rule filed under the
  comma-join of that group, with declarations that no other rule shares. Then the
  optimized \<open>get_css\<close> leaves, under that key, a combined rule (its selector is the key
  and its encoding is that of a combine group), and no rule of the final working set has
  the encoding of the rule that was there: its declarations are gone from the output.
  When in addition no two groups have the same combined selector and no combined selector
  is a member of a group, the rule under the key is exactly the combined rule of the
  group.
\<close>

theorem combined_selector_collision_overwrites:
  assumes v: "valid_processor p" and vs: "valid_stores p"
    and o: "opt \<noteq> Some False"
    and multi: "2 \<le> length (array_keys (encodings (working_set (pull_stores p))) j)"
    and old: "map_of (working_set (pull_stores p))
                (implode '','' (array_keys (encodings (working_set (pull_stores p))) j)) = Some old"
    and own: "length (array_keys (encodings (working_set (pull_stores p))) (rule_json old)) \<le> 1"
  shows "\<exists>css p' new.
           get_css d \<lparr>optimize = opt, prettify = pr\<rparr> p = Some (css, p')
           \<and> map_of (working_set p')
                (implode '','' (array_keys (encodings (working_set (pull_stores p))) j)) = Some new
           \<and> selector new = implode '','' (array_keys (encodings (working_set (pull_stores p))) j)
           \<and> 2 \<le> length (array_keys (encodings (working_set (pull_stores p))) (rule_json new))
           \<and> list_all (\<lambda>(k', rule). rule_json rule \<noteq> rule_json old) (working_set p')
           \<and> (joins_clear (working_set (pull_stores p)) \<longrightarrow>
                new = snd (combined_rule (working_set (pull_stores p))
                             (array_keys (encodings (working_set (pull_stores p))) j)))"
proof -
  let ?q = "pull_stores p"
  let ?ws = "working_set ?q"
  let ?k = "implode '','' (array_keys (encodings ?ws) j)"
  have vq: "valid_processor ?q" using v vs by (rule pull_stores_valid(1))
  have d0: "distinct (map fst ?ws)"
    using vq by (simp add: valid_working_set_keys valid_processor_def)
  obtain pretty where args: "wp_parse_args \<lparr>optimize = opt, prettify = pr\<rparr> (True, d) = (True, pretty)"
    using o by (cases opt) (auto simp: wp_parse_args_def)
  from combine_refines[OF vq] obtain p' where p':
    "combine_rules_selectors ?q = Some p'" "working_set p' = combine_spec ?ws" by blast
  have run: "get_css d \<lparr>optimize = opt, prettify = pr\<rparr> p = Some (build_css p' pretty, p')"
    by (simp add: get_css_def args p'(1))
  from combine_spec_collision(1)[OF d0 multi old own] obtain new where new:
    "map_of (combine_spec ?ws) ?k = Some new" "selector new = ?k"
    "2 \<le> length (array_keys (encodings ?ws) (rule_json new))" by blast
  have gone: "list_all (\<lambda>(k', rule). rule_json rule \<noteq> rule_json old) (working_set p')"
    unfolding p'(2) using d0 multi old own by (rule combine_spec_collision(2))
  have exact: "joins_clear ?ws \<longrightarrow> new = snd (combined_rule ?ws (array_keys (encodings ?ws) j))"
    using combine_spec_collision_exact[OF d0 multi] new(1) by auto
  show ?thesis
  proof (intro exI conjI)
    show "get_css d \<lparr>optimize = opt, prettify = pr\<rparr> p = Some (build_css p' pretty, p')"
      by (rule run)
    show "map_of (working_set p') ?k = Some new" unfolding p'(2) by (rule new(1))
    show "selector new = ?k" by (rule new(2))
    show "2 \<le> length (array_keys (encodings ?ws) (rule_json new))" by (rule new(3))
    show "list_all (\<lambda>(k', rule). rule_json rule \<noteq> rule_json old) (working_set p')"
      by (rule gone)
    show "joins_clear ?ws \<longrightarrow> new = snd (combined_rule ?ws (array_keys (encodings ?ws) j))"
      by (rule exact)
  qed
qed



theorem combined_selector_collision_overwrites_witness:
  "valid_processor collision_processor \<and> valid_stores collision_processor
   \<and> Some True \<noteq> Some False
   \<and> 2 \<le> length (array_keys (encodings (working_set (pull_stores collision_processor)))
              (rule_json \<lparr>selector = ''.a'', declarations = [(''color'', ''red'')]\<rparr>))
   \<and> map_of (working_set (pull_stores collision_processor))
        (implode '','' (array_keys (encodings (working_set (pull_stores collision_processor)))
           (rule_json \<lparr>selector = ''.a'', declarations = [(''color'', ''red'')]\<rparr>)))
       = Some \<lparr>selector = ''.a,.b'', declarations = [(''margin'', ''0'')]\<rparr>
   \<and> length (array_keys (encodings (working_set (pull_stores collision_processor)))
              (rule_json \<lparr>selector = ''.a,.b'', declarations = [(''margin'', ''0'')]\<rparr>)) \<le> 1
   \<and> joins_clear (working_set (pull_stores collision_processor))
   \<and> (\<exists>css p'.
         get_css False \<lparr>optimize = Some True, prettify = Some False\<rparr> collision_processor
           = Some (css, p')
         \<and> map_of (working_set p') ''.a,.b''
             = Some \<lparr>selector = ''.a,.b'', declarations = [(''color'', ''red'')]\<rparr>
         \<and> list_all (\<lambda>(k', rule). rule_json rule
                \<noteq> rule_json \<lparr>selector = ''.a,.b'', declarations = [(''margin'', ''0'')]\<rparr>)
              (working_set p'))
   \<and> map_option fst
         (get_css False \<lparr>optimize = Some True, prettify = Some False\<rparr> collision_processor)
       = Some ''.a,.b{color: red;}''"
proof -
  let ?red = "\<lparr>selector = ''.a'', declarations = [(''color'', ''red'')]\<rparr>"
  let ?old = "\<lparr>selector = ''.a,.b'', declarations = [(''margin'', ''0'')]\<rparr>"
  have pull: "pull_stores collision_processor = collision_processor"
    by (simp add: collision_processor_def eval_defs)
  have w: "working_set collision_processor
     = [(''.a,.b'', ?old),
        (''.a'', \<lparr>selector = ''.a'', declarations = [(''color'', ''red'')]\<rparr>),
        (''.b'', \<lparr>selector = ''.b'', declarations = [(''color'', ''red'')]\<rparr>)]"
    by (simp add: collision_processor_def new_processor_def add_rules_def add_rule_def
        working_set_def Let_def)
  have v: "valid_processor collision_processor"
    by (simp add: collision_processor_def valid_processor_def eval_defs)
  have vs: "valid_stores collision_processor"
    by (simp add: collision_processor_def valid_stores_def eval_defs)
  have o: "Some True \<noteq> Some False" by simp
  have G: "array_keys (encodings (working_set (pull_stores collision_processor))) (rule_json ?red)
           = [''.a'', ''.b'']"
    unfolding pull w
    by (simp add: encodings_def rule_json_def wp_json_encode_def ksort_def json_string_def
        json_escape_def array_keys_def)
  have multi: "2 \<le> length (array_keys (encodings (working_set (pull_stores collision_processor)))
                 (rule_json ?red))"
    unfolding G by simp
  have old: "map_of (working_set (pull_stores collision_processor))
        (implode '','' (array_keys (encodings (working_set (pull_stores collision_processor)))
           (rule_json ?red))) = Some ?old"
    unfolding G unfolding pull w by simp
  have own: "length (array_keys (encodings (working_set (pull_stores collision_processor)))
              (rule_json ?old)) \<le> 1"
    unfolding pull w
    by (simp add: encodings_def rule_json_def wp_json_encode_def ksort_def json_string_def
        json_escape_def array_keys_def)
  have gs: "combine_groups (encodings (working_set (pull_stores collision_processor)))
            = [[''.a'', ''.b'']]"
    unfolding pull w
    by (simp add: combine_groups_def encodings_def rule_json_def wp_json_encode_def ksort_def
        json_string_def json_escape_def array_keys_def)
  have clear: "joins_clear (working_set (pull_stores collision_processor))"
    unfolding joins_clear_def gs by simp
  have new: "snd (combined_rule (working_set (pull_stores collision_processor))
                 (array_keys (encodings (working_set (pull_stores collision_processor)))
                    (rule_json ?red)))
             = \<lparr>selector = ''.a,.b'', declarations = [(''color'', ''red'')]\<rparr>"
    unfolding G unfolding pull w
    by (simp add: combined_rule_def declarations_of_def new_css_rule_def)
  from combined_selector_collision_overwrites[OF v vs o multi old own, of False "Some False"]
  obtain css p' new where r:
    "get_css False \<lparr>optimize = Some True, prettify = Some False\<rparr> collision_processor
       = Some (css, p')"
    "map_of (working_set p')
       (implode '','' (array_keys (encodings (working_set (pull_stores collision_processor)))
          (rule_json ?red))) = Some new"
    "list_all (\<lambda>(k', rule). rule_json rule \<noteq> rule_json ?old) (working_set p')"
    "joins_clear (working_set (pull_stores collision_processor)) \<longrightarrow>
       new = snd (combined_rule (working_set (pull_stores collision_processor))
                   (array_keys (encodings (working_set (pull_stores collision_processor)))
                      (rule_json ?red)))"
    by blast
  have "new = \<lparr>selector = ''.a,.b'', declarations = [(''color'', ''red'')]\<rparr>"
    using r(4) clear new by simp
  then have ex: "\<exists>css p'.
         get_css False \<lparr>optimize = Some True, prettify = Some False\<rparr> collision_processor
           = Some (css, p')
         \<and> map_of (working_set p') ''.a,.b''
             = Some \<lparr>selector = ''.a,.b'', declarations = [(''color'', ''red'')]\<rparr>
         \<and> list_all (\<lambda>(k', rule). rule_json rule \<noteq> rule_json ?old) (working_set p')"
    using r(1,2,3) unfolding G by auto
  have out: "map_option fst
         (get_css False \<lparr>optimize = Some True, prettify = Some False\<rparr> collision_processor)
       = Some ''.a,.b{color: red;}''"
    by (simp add: collision_processor_def eval_defs)
  show ?thesis using v vs o multi old own clear ex out by (intro conjI)
qed

text \<open>
  C10 as stated fails when the rule filed under the joined selector shares its
  declarations with another rule: it is then a member of a group itself, and its
  declarations stay in the output under the combined selector of that group. With
  \<open>.c {color: blue}\<close>, \<open>.a,.b {color: blue}\<close>, \<open>.a {color: red}\<close>,
  \<open>.b {color: red}\<close> the output is \<open>.c,.a,.b{color: blue;}.a,.b{color: red;}\<close>.
  With the same rules in the order \<open>.a\<close>, \<open>.b\<close>, \<open>.c\<close>, \<open>.a,.b\<close> the combined
  rule of \<open>.a\<close> and \<open>.b\<close> is first stored under \<open>.a,.b\<close> and then removed as a
  member of the group of \<open>.c\<close>, whose encodings were recorded before the pass: the
  output is \<open>.c,.a,.b{color: blue;}\<close>, and it is the red declarations that are lost.
\<close>

theorem collision_keeps_shared_declarations:
  "map_of (working_set shared_collision_processor) ''.a,.b''
     = Some \<lparr>selector = ''.a,.b'', declarations = [(''color'', ''blue'')]\<rparr>
   \<and> array_keys (encodings (working_set shared_collision_processor))
        (rule_json \<lparr>selector = ''.a'', declarations = [(''color'', ''red'')]\<rparr>) = [''.a'', ''.b'']
   \<and> map_option fst
        (get_css False \<lparr>optimize = Some True, prettify = Some False\<rparr> shared_collision_processor)
     = Some ''.c,.a,.b{color: blue;}.a,.b{color: red;}''
   \<and> map_of (working_set late_collision_processor) ''.a,.b''
     = Some \<lparr>selector = ''.a,.b'', declarations = [(''color'', ''blue'')]\<rparr>
   \<and> array_keys (encodings (working_set late_collision_processor))
        (rule_json \<lparr>selector = ''.a'', declarations = [(''color'', ''red'')]\<rparr>) = [''.a'', ''.b'']
   \<and> map_option fst
        (get_css False \<lparr>optimize = Some True, prettify = Some False\<rparr> late_collision_processor)
     = Some ''.c,.a,.b{color: blue;}''"
  by (simp add: shared_collision_processor_def late_collision_processor_def encodings_def eval_defs)

end
